theory Spec2Isabelle
  imports Main "HOL-Library.Multiset"
begin

section \<open>Strings and the path module\<close>

text \<open>
  The resolver and the assembler of \<^verbatim>\<open>unbrowserify.js\<close> call three functions of Node's
  \<^verbatim>\<open>path\<close> module (POSIX flavour) and two string methods. They are library code, so they are
  written out here once, following the library, and used below under the names the source
  uses. Strings are lists of bytes; \<^verbatim>\<open>toLowerCase\<close> is modelled on ASCII letters.
\<close>

definition toLowerChar :: "char \<Rightarrow> char" where
  "toLowerChar c =
     (case map_of (zip ''ABCDEFGHIJKLMNOPQRSTUVWXYZ'' ''abcdefghijklmnopqrstuvwxyz'') c of
        Some d \<Rightarrow> d
      | None \<Rightarrow> c)"

definition toLowerCase :: "string \<Rightarrow> string" where
  "toLowerCase s = map toLowerChar s"

definition startsWith :: "string \<Rightarrow> string \<Rightarrow> bool" where
  "startsWith s p = (take (length p) s = p)"

fun split_slash :: "string \<Rightarrow> string list" where
  "split_slash [] = [[]]"
| "split_slash (c # cs) =
     (if c = CHR ''/'' then [] # split_slash cs
      else (case split_slash cs of
              seg # segs \<Rightarrow> (c # seg) # segs
            | [] \<Rightarrow> [[c]]))"

fun join_slash :: "string list \<Rightarrow> string" where
  "join_slash [] = []"
| "join_slash [s] = s"
| "join_slash (s # t # ss) = s @ ''/'' @ join_slash (t # ss)"

text \<open>
  \<^verbatim>\<open>normalizeString\<close> walks the segments between slashes: empty segments and \<^verbatim>\<open>.\<close> are
  dropped, \<^verbatim>\<open>..\<close> removes the last kept segment unless that is itself \<^verbatim>\<open>..\<close> (or nothing is
  kept), in which case it is kept when going above the root is allowed.
\<close>

definition normalizeStep :: "bool \<Rightarrow> string list \<Rightarrow> string \<Rightarrow> string list" where
  "normalizeStep allowAboveRoot res seg =
     (if seg = [] \<or> seg = ''.'' then res
      else if seg = ''..'' then
        (if res \<noteq> [] \<and> last res \<noteq> ''..'' then butlast res
         else if allowAboveRoot then res @ [''..'']
         else res)
      else res @ [seg])"

definition normalizeString :: "string \<Rightarrow> bool \<Rightarrow> string" where
  "normalizeString path allowAboveRoot =
     join_slash (foldl (normalizeStep allowAboveRoot) [] (split_slash path))"

definition path_normalize :: "string \<Rightarrow> string" where
  "path_normalize path =
     (if path = [] then ''.''
      else
        (let isAbsolute = (hd path = CHR ''/'');
             trailingSeparator = (last path = CHR ''/'');
             p = normalizeString path (\<not> isAbsolute)
         in if p = [] then (if isAbsolute then ''/'' else if trailingSeparator then ''./'' else ''.'')
            else (let p' = (if trailingSeparator then p @ ''/'' else p)
                  in if isAbsolute then ''/'' @ p' else p')))"

definition path_join :: "string list \<Rightarrow> string" where
  "path_join args =
     (let joined = join_slash (filter (\<lambda>arg. arg \<noteq> []) args)
      in if joined = [] then ''.'' else path_normalize joined)"

text \<open>
  \<^verbatim>\<open>dirname\<close> scans the path from its last character down to index 1 for the first slash
  that follows a non-slash character; \<open>dirname_scan path i matchedSlash\<close> is that loop with
  \<open>i\<close> the index still to be looked at.
\<close>

fun dirname_scan :: "string \<Rightarrow> nat \<Rightarrow> bool \<Rightarrow> nat option" where
  "dirname_scan path 0 matchedSlash = None"
| "dirname_scan path (Suc i) matchedSlash =
     (if path ! Suc i = CHR ''/'' then
        (if \<not> matchedSlash then Some (Suc i) else dirname_scan path i matchedSlash)
      else dirname_scan path i False)"

definition path_dirname :: "string \<Rightarrow> string" where
  "path_dirname path =
     (if path = [] then ''.''
      else
        (let hasRoot = (hd path = CHR ''/'')
         in case dirname_scan path (length path - 1) True of
              None \<Rightarrow> (if hasRoot then ''/'' else ''.'')
            | Some e \<Rightarrow> (if hasRoot \<and> e = 1 then ''//'' else take e path)))"

text \<open>
  \<^verbatim>\<open>basename(path, ext)\<close>. With an extension that is not longer than the path, the library
  scans the path from its last character: trailing slashes are skipped, the scan stops at the
  first slash after a non-slash character, and along the way the end of the segment is
  compared with the extension. \<open>basename_scan\<close> is that loop, called with the number of
  characters still to be looked at; its state holds the variables of the loop, with \<open>-1\<close>
  for "not set". Without a usable extension the result is the last segment.
\<close>

record basename_state =
  bstart :: nat
  bend :: int
  matchedSlash :: bool
  extIdx :: int
  firstNonSlashEnd :: int

fun basename_scan :: "string \<Rightarrow> string \<Rightarrow> nat \<Rightarrow> basename_state \<Rightarrow> basename_state" where
  "basename_scan path ext 0 s = s"
| "basename_scan path ext (Suc i) s =
     (if path ! i = CHR ''/'' then
        (if \<not> matchedSlash s then s\<lparr>bstart := i + 1\<rparr>
         else basename_scan path ext i s)
      else
        (let s1 = (if firstNonSlashEnd s = - 1
                   then s\<lparr>matchedSlash := False, firstNonSlashEnd := int i + 1\<rparr>
                   else s);
             s2 = (if 0 \<le> extIdx s1 then
                     (if path ! i = ext ! nat (extIdx s1) then
                        (if extIdx s1 - 1 = - 1
                         then s1\<lparr>extIdx := - 1, bend := int i\<rparr>
                         else s1\<lparr>extIdx := extIdx s1 - 1\<rparr>)
                      else s1\<lparr>extIdx := - 1, bend := firstNonSlashEnd s1\<rparr>)
                   else s1)
         in basename_scan path ext i s2))"

definition slice :: "string \<Rightarrow> nat \<Rightarrow> int \<Rightarrow> string" where
  "slice path start end = take (nat end - start) (drop start path)"

definition path_basename :: "string \<Rightarrow> string \<Rightarrow> string" where
  "path_basename path ext =
     (if ext \<noteq> [] \<and> length ext \<le> length path then
        (if ext = path then []
         else
           (let s = basename_scan path ext (length path)
                      \<lparr>bstart = 0, bend = - 1, matchedSlash = True,
                       extIdx = int (length ext) - 1, firstNonSlashEnd = - 1\<rparr>;
                e = (if int (bstart s) = bend s then firstNonSlashEnd s
                     else if bend s = - 1 then int (length path)
                     else bend s)
            in slice path (bstart s) e))
      else last (split_slash (rev (dropWhile (\<lambda>c. c = CHR ''/'') (rev path)))))"

section \<open>Module Name Resolver: \<^verbatim>\<open>extractModuleNames\<close>\<close>

text \<open>
  A property of the module map is a key (the module id, as the property-key string), the
  module function and the require mapping, an ordered list of (specifier, target id) pairs.
  The Name Table is the JavaScript object \<^verbatim>\<open>moduleNames\<close>, a map from id to name; ids are
  assumed not to be names of members of \<^verbatim>\<open>Object.prototype\<close>. What \<^verbatim>\<open>console.warn\<close> prints
  is collected, line by line, in \<open>warnings\<close>.
\<close>

record 'f objectProperty =
  key :: string
  moduleFunction :: 'f
  requireMapping :: "(string \<times> string) list"

record resolver =
  moduleNames :: "string \<rightharpoonup> string"
  warnings :: "string list"

text \<open>\<^verbatim>\<open>moduleNames[id]\<close> read as a condition: a missing entry and the empty string are falsy.\<close>

definition named :: "(string \<rightharpoonup> string) \<Rightarrow> string \<Rightarrow> string option" where
  "named m k = (case m k of None \<Rightarrow> None | Some n \<Rightarrow> if n = [] then None else Some n)"

definition candidateName :: "string \<Rightarrow> string \<Rightarrow> string" where
  "candidateName moduleName name =
     (if startsWith name ''.'' then path_join [path_dirname moduleName, name]
      else path_join [''node_modules'', name, ''index''])"

text \<open>
  The body of \<^verbatim>\<open>requireMapping.properties.forEach\<close>. The local variable \<^verbatim>\<open>moduleName\<close> is
  updated by \<^verbatim>\<open>moduleName += '/index'\<close>, so it is threaded with the state.
\<close>

fun requireStep :: "string \<Rightarrow> string \<times> resolver \<Rightarrow> string \<times> string \<Rightarrow> string \<times> resolver" where
  "requireStep moduleId (moduleName, st) (spec, ident) =
     (let name = candidateName moduleName spec
      in case named (moduleNames st) ident of
           None \<Rightarrow> (moduleName, st\<lparr>moduleNames := (moduleNames st)(ident \<mapsto> name)\<rparr>)
         | Some existing \<Rightarrow>
             if toLowerCase existing \<noteq> toLowerCase name then
               (if length existing \<le> length name then
                  (moduleName,
                   st\<lparr>warnings := warnings st @
                      [''More than one name found for module '' @ ident @ '':'',
                       ''    '' @ existing,
                       ''    '' @ name]\<rparr>)
                else
                  (moduleName @ ''/index'',
                   st\<lparr>moduleNames := (moduleNames st)(moduleId \<mapsto> moduleName @ ''/index'')\<rparr>))
             else (moduleName, st))"

definition processProperty :: "'f objectProperty \<Rightarrow> string \<Rightarrow> resolver \<Rightarrow> resolver" where
  "processProperty objectProperty moduleName st =
     snd (foldl (requireStep (key objectProperty)) (moduleName, st) (requireMapping objectProperty))"

text \<open>
  The \<^verbatim>\<open>while(properties.length)\<close> loop: the first property is taken off the list; when its
  id has no name yet it is pushed to the back, otherwise its require mapping is processed.
  The loop has no other exit, so it is a partial function: \<open>None\<close> is "does not return".
\<close>

partial_function (option) worklist :: "'f objectProperty list \<Rightarrow> resolver \<Rightarrow> resolver option" where
  "worklist properties st =
     (case properties of
        [] \<Rightarrow> Some st
      | objectProperty # rest \<Rightarrow>
          (case named (moduleNames st) (key objectProperty) of
             None \<Rightarrow> worklist (rest @ [objectProperty]) st
           | Some moduleName \<Rightarrow> worklist rest (processProperty objectProperty moduleName st)))"

definition seedNames :: "string list \<Rightarrow> string \<rightharpoonup> string" where
  "seedNames main = foldl (\<lambda>m element. m(element \<mapsto> ''browser'')) Map.empty main"

definition extractModuleNames :: "'f objectProperty list \<Rightarrow> string list \<Rightarrow> resolver option" where
  "extractModuleNames moduleObject main =
     worklist moduleObject \<lparr>moduleNames = seedNames main, warnings = []\<rparr>"

declare requireStep.simps [simp del]

text \<open>
  The ids that read as named, and the ids that names can reach: the seeds, and every target
  in the require mapping of a property whose own id is reached.
\<close>

definition namedIds :: "resolver \<Rightarrow> string set" where
  "namedIds st = {k. named (moduleNames st) k \<noteq> None}"

inductive_set reach :: "string set \<Rightarrow> 'f objectProperty set \<Rightarrow> string set"
  for S :: "string set" and E :: "'f objectProperty set" where
  seed: "x \<in> S \<Longrightarrow> x \<in> reach S E"
| edge: "p \<in> E \<Longrightarrow> key p \<in> reach S E \<Longrightarrow> (spec, t) \<in> set (requireMapping p) \<Longrightarrow> t \<in> reach S E"

text \<open>A Name Table agrees with a naming \<open>N\<close> when every name it holds is the one \<open>N\<close> gives,
  and nothing has been warned about.\<close>

definition agrees :: "(string \<Rightarrow> string) \<Rightarrow> resolver \<Rightarrow> bool" where
  "agrees N st \<longleftrightarrow> (\<forall>k v. moduleNames st k = Some v \<longrightarrow> v = N k) \<and> warnings st = []"

section \<open>The syntax tree\<close>

text \<open>
  The tree is the parser library's; the program only walks it, tests the class of a node and
  reads or writes fields. The model keeps one type of nodes, as the library does, with a
  constructor for each class the program meets and the fields it reads. Class tests
  (\<^verbatim>\<open>instanceof\<close>) are predicates that follow the library's class hierarchy: a function
  expression is a scope, a scope is a block and a block is a statement; an assignment is a
  binary node. A comma expression has the two fields \<^verbatim>\<open>car\<close> and \<^verbatim>\<open>cdr\<close> that
  \<^verbatim>\<open>removeSequences\<close> reads.

  A symbol carries its name and its \<^verbatim>\<open>thedef\<close>: none, a definition object shared with the
  other symbols of the same variable (an index into a store of mangled names), or a
  definition object of its own, as \<^verbatim>\<open>renameArguments\<close> creates one.
\<close>

datatype thedef = NoDef | Def nat | Own "string option"

type_synonym symbol = "string \<times> thedef"

datatype node =
    AST_Number int
  | AST_String string
  | AST_NaN
  | AST_Infinity
  | AST_True
  | AST_False
  | AST_SymbolRef string thedef
  | AST_Binary string node node
  | AST_Assign string node node
  | AST_UnaryPrefix string node
  | AST_Conditional node node node
  | AST_Sequence node node
  | AST_Call node "node list"
  | AST_Dot node string
  | AST_Array "node list"
  | AST_Object "node list"
  | AST_ObjectKeyVal string node
  | AST_Function "symbol list" "node list"
  | AST_Defun symbol "symbol list" "node list"
  | AST_Toplevel "node list"
  | AST_BlockStatement "node list"
  | AST_SimpleStatement node
  | AST_EmptyStatement
  | AST_If node node "node option"
  | AST_For "node option" "node option" "node option" node
  | AST_While node node
  | AST_With node node
  | AST_LabeledStatement string node
  | AST_Switch node "node list"
  | AST_Case node "node list"
  | AST_Default "node list"
  | AST_Return "node option"
  | AST_Var "node list"
  | AST_VarDef symbol "node option"

definition opt_list :: "'a option \<Rightarrow> 'a list" where
  "opt_list v = (case v of None \<Rightarrow> [] | Some x \<Rightarrow> [x])"

text \<open>The child nodes of a node, in the order the library's walker visits them.\<close>

fun children :: "node \<Rightarrow> node list" where
  "children (AST_Number v) = []"
| "children (AST_String v) = []"
| "children AST_NaN = []"
| "children AST_Infinity = []"
| "children AST_True = []"
| "children AST_False = []"
| "children (AST_SymbolRef name d) = []"
| "children (AST_Binary operator left right) = [left, right]"
| "children (AST_Assign operator left right) = [left, right]"
| "children (AST_UnaryPrefix operator expression) = [expression]"
| "children (AST_Conditional condition consequent alternative) = [condition, consequent, alternative]"
| "children (AST_Sequence car cdr) = [car, cdr]"
| "children (AST_Call expression args) = expression # args"
| "children (AST_Dot expression property) = [expression]"
| "children (AST_Array elements) = elements"
| "children (AST_Object properties) = properties"
| "children (AST_ObjectKeyVal k v) = [v]"
| "children (AST_Function argnames body) = body"
| "children (AST_Defun name argnames body) = body"
| "children (AST_Toplevel body) = body"
| "children (AST_BlockStatement body) = body"
| "children (AST_SimpleStatement body) = [body]"
| "children AST_EmptyStatement = []"
| "children (AST_If condition body alternative) = condition # body # opt_list alternative"
| "children (AST_For init condition step body) =
     opt_list init @ opt_list condition @ opt_list step @ [body]"
| "children (AST_While condition body) = [condition, body]"
| "children (AST_With expression body) = [expression, body]"
| "children (AST_LabeledStatement label body) = [body]"
| "children (AST_Switch expression body) = expression # body"
| "children (AST_Case expression body) = expression # body"
| "children (AST_Default body) = body"
| "children (AST_Return v) = opt_list v"
| "children (AST_Var definitions) = definitions"
| "children (AST_VarDef name v) = opt_list v"

text \<open>
  \<open>descend f node\<close> is the library's \<^verbatim>\<open>descend\<close> of a tree transformer: every child is
  replaced by what \<open>f\<close> returns for it.
\<close>

fun descend :: "(node \<Rightarrow> node) \<Rightarrow> node \<Rightarrow> node" where
  "descend f (AST_Number v) = AST_Number v"
| "descend f (AST_String v) = AST_String v"
| "descend f AST_NaN = AST_NaN"
| "descend f AST_Infinity = AST_Infinity"
| "descend f AST_True = AST_True"
| "descend f AST_False = AST_False"
| "descend f (AST_SymbolRef name d) = AST_SymbolRef name d"
| "descend f (AST_Binary operator left right) = AST_Binary operator (f left) (f right)"
| "descend f (AST_Assign operator left right) = AST_Assign operator (f left) (f right)"
| "descend f (AST_UnaryPrefix operator expression) = AST_UnaryPrefix operator (f expression)"
| "descend f (AST_Conditional condition consequent alternative) =
     AST_Conditional (f condition) (f consequent) (f alternative)"
| "descend f (AST_Sequence car cdr) = AST_Sequence (f car) (f cdr)"
| "descend f (AST_Call expression args) = AST_Call (f expression) (map f args)"
| "descend f (AST_Dot expression property) = AST_Dot (f expression) property"
| "descend f (AST_Array elements) = AST_Array (map f elements)"
| "descend f (AST_Object properties) = AST_Object (map f properties)"
| "descend f (AST_ObjectKeyVal k v) = AST_ObjectKeyVal k (f v)"
| "descend f (AST_Function argnames body) = AST_Function argnames (map f body)"
| "descend f (AST_Defun name argnames body) = AST_Defun name argnames (map f body)"
| "descend f (AST_Toplevel body) = AST_Toplevel (map f body)"
| "descend f (AST_BlockStatement body) = AST_BlockStatement (map f body)"
| "descend f (AST_SimpleStatement body) = AST_SimpleStatement (f body)"
| "descend f AST_EmptyStatement = AST_EmptyStatement"
| "descend f (AST_If condition body alternative) =
     AST_If (f condition) (f body) (map_option f alternative)"
| "descend f (AST_For init condition step body) =
     AST_For (map_option f init) (map_option f condition) (map_option f step) (f body)"
| "descend f (AST_While condition body) = AST_While (f condition) (f body)"
| "descend f (AST_With expression body) = AST_With (f expression) (f body)"
| "descend f (AST_LabeledStatement label body) = AST_LabeledStatement label (f body)"
| "descend f (AST_Switch expression body) = AST_Switch (f expression) (map f body)"
| "descend f (AST_Case expression body) = AST_Case (f expression) (map f body)"
| "descend f (AST_Default body) = AST_Default (map f body)"
| "descend f (AST_Return v) = AST_Return (map_option f v)"
| "descend f (AST_Var definitions) = AST_Var (map f definitions)"
| "descend f (AST_VarDef name v) = AST_VarDef name (map_option f v)"

text \<open>Class tests.\<close>

fun is_Block :: "node \<Rightarrow> bool" where
  "is_Block (AST_BlockStatement body) = True"
| "is_Block (AST_Toplevel body) = True"
| "is_Block (AST_Function argnames body) = True"
| "is_Block (AST_Defun name argnames body) = True"
| "is_Block (AST_Switch expression body) = True"
| "is_Block (AST_Case expression body) = True"
| "is_Block (AST_Default body) = True"
| "is_Block node = False"

fun is_StatementWithBody :: "node \<Rightarrow> bool" where
  "is_StatementWithBody (AST_If condition body alternative) = True"
| "is_StatementWithBody (AST_For init condition step body) = True"
| "is_StatementWithBody (AST_While condition body) = True"
| "is_StatementWithBody (AST_With expression body) = True"
| "is_StatementWithBody (AST_LabeledStatement label body) = True"
| "is_StatementWithBody node = False"

fun is_Statement :: "node \<Rightarrow> bool" where
  "is_Statement (AST_SimpleStatement body) = True"
| "is_Statement AST_EmptyStatement = True"
| "is_Statement (AST_Return v) = True"
| "is_Statement (AST_Var definitions) = True"
| "is_Statement node = (is_Block node \<or> is_StatementWithBody node)"

fun is_If :: "node \<Rightarrow> bool" where
  "is_If (AST_If condition body alternative) = True"
| "is_If node = False"

fun is_Call :: "node \<Rightarrow> bool" where
  "is_Call (AST_Call expression args) = True"
| "is_Call node = False"

text \<open>The fields of a binary node; an assignment is one.\<close>

fun binaryParts :: "node \<Rightarrow> (string \<times> node \<times> node) option" where
  "binaryParts (AST_Binary operator left right) = Some (operator, left, right)"
| "binaryParts (AST_Assign operator left right) = Some (operator, left, right)"
| "binaryParts node = None"

text \<open>
  A weight on trees, for the termination of the rewriting below: every rewrite rule of the
  normalizer makes the tree lighter, and a child is lighter than its parent.
\<close>

fun weight :: "node \<Rightarrow> nat" where
  "weight (AST_Number v) = 1"
| "weight (AST_String v) = 1"
| "weight AST_NaN = 1"
| "weight AST_Infinity = 1"
| "weight AST_True = 1"
| "weight AST_False = 1"
| "weight (AST_SymbolRef name d) = 1"
| "weight (AST_Binary operator left right) = 4 + weight left + weight right"
| "weight (AST_Assign operator left right) = 4 + weight left + weight right"
| "weight (AST_UnaryPrefix operator expression) = 2 + weight expression"
| "weight (AST_Conditional condition consequent alternative) =
     3 + weight condition + weight consequent + weight alternative"
| "weight (AST_Sequence car cdr) = 2 + weight car + weight cdr"
| "weight (AST_Call expression args) = 1 + weight expression + sum_list (map weight args)"
| "weight (AST_Dot expression property) = 1 + weight expression"
| "weight (AST_Array elements) = 1 + sum_list (map weight elements)"
| "weight (AST_Object properties) = 1 + sum_list (map weight properties)"
| "weight (AST_ObjectKeyVal k v) = 1 + weight v"
| "weight (AST_Function argnames body) = 1 + sum_list (map weight body)"
| "weight (AST_Defun name argnames body) = 1 + sum_list (map weight body)"
| "weight (AST_Toplevel body) = 1 + sum_list (map weight body)"
| "weight (AST_BlockStatement body) = 1 + sum_list (map weight body)"
| "weight (AST_SimpleStatement body) = 1 + weight body"
| "weight AST_EmptyStatement = 1"
| "weight (AST_If condition body alternative) =
     1 + weight condition + weight body + (case alternative of None \<Rightarrow> 0 | Some a \<Rightarrow> weight a)"
| "weight (AST_For init condition step body) =
     1 + (case init of None \<Rightarrow> 0 | Some a \<Rightarrow> weight a)
       + (case condition of None \<Rightarrow> 0 | Some a \<Rightarrow> weight a)
       + (case step of None \<Rightarrow> 0 | Some a \<Rightarrow> weight a) + weight body"
| "weight (AST_While condition body) = 1 + weight condition + weight body"
| "weight (AST_With expression body) = 1 + weight expression + weight body"
| "weight (AST_LabeledStatement label body) = 1 + weight body"
| "weight (AST_Switch expression body) = 1 + weight expression + sum_list (map weight body)"
| "weight (AST_Case expression body) = 1 + weight expression + sum_list (map weight body)"
| "weight (AST_Default body) = 1 + sum_list (map weight body)"
| "weight (AST_Return v) = 1 + (case v of None \<Rightarrow> 0 | Some a \<Rightarrow> weight a)"
| "weight (AST_Var definitions) = 1 + sum_list (map weight definitions)"
| "weight (AST_VarDef name v) = 1 + (case v of None \<Rightarrow> 0 | Some a \<Rightarrow> weight a)"

lemma weight_pos: "0 < weight node"
  by (cases node) simp_all

lemma weight_member: "x \<in> set xs \<Longrightarrow> weight x \<le> sum_list (map weight xs)"
  by (induction xs) auto

lemma weight_children: "x \<in> set (children node) \<Longrightarrow> weight x < weight node"
  by (cases node) (auto simp: opt_list_def less_Suc_eq_le dest: weight_member split: option.splits)

lemma descend_cong [fundef_cong]:
  "node = node' \<Longrightarrow> (\<And>x. x \<in> set (children node') \<Longrightarrow> f x = g x) \<Longrightarrow> descend f node = descend g node'"
  by (cases node') (auto simp: opt_list_def split: option.splits intro: option.map_cong)

section \<open>Kernel Matcher: \<^verbatim>\<open>findMainFunction\<close>\<close>

datatype error = AssertionError string | TypeError string

fun foldE :: "('a \<Rightarrow> 's \<Rightarrow> error + 's) \<Rightarrow> 'a list \<Rightarrow> 's \<Rightarrow> error + 's" where
  "foldE f [] s = Inr s"
| "foldE f (x # xs) s = (case f x s of Inl e \<Rightarrow> Inl e | Inr s' \<Rightarrow> foldE f xs s')"

lemma foldE_cong [fundef_cong]:
  "xs = ys \<Longrightarrow> s = t \<Longrightarrow> (\<And>x s. x \<in> set ys \<Longrightarrow> f x s = g x s) \<Longrightarrow> foldE f xs s = foldE g ys t"
  by (induction ys arbitrary: xs s t) (auto split: sum.splits)

text \<open>
  The library's tree walker: the visitor is called on the node; unless it returns true the
  walker goes on to the children. The state of the visitor is threaded, and an exception
  thrown by the visitor ends the walk.
\<close>

function walk :: "(node \<Rightarrow> 's \<Rightarrow> error + bool \<times> 's) \<Rightarrow> node \<Rightarrow> 's \<Rightarrow> error + 's" where
  "walk visitor node s =
     (case visitor node s of
        Inl e \<Rightarrow> Inl e
      | Inr (ret, s') \<Rightarrow> if ret then Inr s' else foldE (walk visitor) (children node) s')"
  by pat_completeness auto
termination
  by (relation "measure (\<lambda>(visitor, node, s). weight node)") (auto simp: weight_children)

text \<open>
  The visitor of \<^verbatim>\<open>findMainFunction\<close>: the state is the variable \<^verbatim>\<open>mainFunctionCall\<close>; at a
  call node the assertion is checked, the call is kept and \<^verbatim>\<open>true\<close> is returned, which stops
  the walker from descending.
\<close>

definition mainFunctionVisitor :: "node \<Rightarrow> node option \<Rightarrow> error + bool \<times> node option" where
  "mainFunctionVisitor node mainFunctionCall =
     (if is_Call node then
        (case mainFunctionCall of
           None \<Rightarrow> Inr (True, Some node)
         | Some c \<Rightarrow> Inl (AssertionError ''More than one top-level function found.''))
      else Inr (False, mainFunctionCall))"

definition findMainFunction :: "node \<Rightarrow> error + node option" where
  "findMainFunction ast = walk mainFunctionVisitor ast None"

text \<open>
  The call nodes of a tree that are not inside another call node, in the order of the walk.
\<close>

function outerCalls :: "node \<Rightarrow> node list" where
  "outerCalls node = (if is_Call node then [node] else concat (map outerCalls (children node)))"
  by pat_completeness auto
termination
  by (relation "measure weight") (auto simp: weight_children)

declare outerCalls.simps [simp del]
declare walk.simps [simp del]

text \<open>What the visitor of \<^verbatim>\<open>findMainFunction\<close> does with a list of calls, one after the other.\<close>

fun matchAll :: "node list \<Rightarrow> node option \<Rightarrow> error + node option" where
  "matchAll [] s = Inr s"
| "matchAll (c # cs) None = matchAll cs (Some c)"
| "matchAll (c # cs) (Some c0) = Inl (AssertionError ''More than one top-level function found.'')"

section \<open>Decompiler/Normalizer: \<^verbatim>\<open>decompress\<close>\<close>

record options =
  constants :: bool
  sequences :: bool
  conditionals :: bool

definition defaultOptions :: options where
  "defaultOptions = \<lparr>constants = True, sequences = True, conditionals = True\<rparr>"

definition asStatement :: "node \<Rightarrow> node" where
  "asStatement node = (if is_Statement node then node else AST_SimpleStatement node)"

text \<open>
  The callbacks that \<^verbatim>\<open>replaceInBlock\<close> is called with. \<open>splitSequence\<close> is the one of
  \<^verbatim>\<open>removeSequences\<close>: first the rule for a \<^verbatim>\<open>var\<close> statement (the first definition whose
  value is a comma expression), then the rule for an assignment statement, then the table
  \<^verbatim>\<open>nodeTypes\<close>, in its order. \<open>voidReturn\<close> is the one for \<^verbatim>\<open>return void a()\<close>.
\<close>

definition sequenceParts :: "node \<Rightarrow> (node \<times> node) option" where
  "sequenceParts node = (case node of AST_Sequence car cdr \<Rightarrow> Some (car, cdr) | _ \<Rightarrow> None)"

definition valueSequence :: "node option \<Rightarrow> (node \<times> node) option" where
  "valueSequence v = (case v of None \<Rightarrow> None | Some node \<Rightarrow> sequenceParts node)"

fun splitDefinitions :: "node list \<Rightarrow> (node \<times> node list) option" where
  "splitDefinitions [] = None"
| "splitDefinitions (d # rest) =
     (case (case d of AST_VarDef name v \<Rightarrow> map_option (Pair name) (valueSequence v) | _ \<Rightarrow> None) of
        Some (name, car, cdr) \<Rightarrow> Some (car, AST_VarDef name (Some cdr) # rest)
      | None \<Rightarrow>
          (case splitDefinitions rest of
             None \<Rightarrow> None
           | Some (car, rest') \<Rightarrow> Some (car, d # rest')))"

definition splitVar :: "node \<Rightarrow> node list option" where
  "splitVar child =
     (case child of
        AST_Var definitions \<Rightarrow>
          (case splitDefinitions definitions of
             None \<Rightarrow> None
           | Some (car, definitions') \<Rightarrow> Some [AST_SimpleStatement car, AST_Var definitions'])
      | _ \<Rightarrow> None)"

definition splitAssign :: "node \<Rightarrow> node list option" where
  "splitAssign child =
     (case child of
        AST_SimpleStatement body \<Rightarrow>
          (case body of
             AST_Assign operator left right \<Rightarrow>
               (case sequenceParts right of
                  Some (car, cdr) \<Rightarrow>
                    Some [AST_SimpleStatement car, AST_SimpleStatement (AST_Assign operator left cdr)]
                | None \<Rightarrow> None)
           | _ \<Rightarrow> None)
      | _ \<Rightarrow> None)"

definition splitNodeTypes :: "node \<Rightarrow> node list option" where
  "splitNodeTypes child =
     (case child of
        AST_Return v \<Rightarrow>
          (case valueSequence v of
             Some (car, cdr) \<Rightarrow> Some [AST_SimpleStatement car, AST_Return (Some cdr)]
           | None \<Rightarrow> None)
      | AST_SimpleStatement body \<Rightarrow>
          (case sequenceParts body of
             Some (car, cdr) \<Rightarrow> Some [AST_SimpleStatement car, AST_SimpleStatement cdr]
           | None \<Rightarrow> None)
      | AST_If condition body alternative \<Rightarrow>
          (case sequenceParts condition of
             Some (car, cdr) \<Rightarrow> Some [AST_SimpleStatement car, AST_If cdr body alternative]
           | None \<Rightarrow> None)
      | AST_For init condition step body \<Rightarrow>
          (case valueSequence init of
             Some (car, cdr) \<Rightarrow> Some [AST_SimpleStatement car, AST_For (Some cdr) condition step body]
           | None \<Rightarrow> None)
      | AST_With expression body \<Rightarrow>
          (case sequenceParts expression of
             Some (car, cdr) \<Rightarrow> Some [AST_SimpleStatement car, AST_With cdr body]
           | None \<Rightarrow> None)
      | AST_Switch expression body \<Rightarrow>
          (case sequenceParts expression of
             Some (car, cdr) \<Rightarrow> Some [AST_SimpleStatement car, AST_Switch cdr body]
           | None \<Rightarrow> None)
      | _ \<Rightarrow> None)"

definition splitSequence :: "node \<Rightarrow> node list option" where
  "splitSequence child =
     (case splitVar child of
        Some newNodes \<Rightarrow> Some newNodes
      | None \<Rightarrow>
          (case splitAssign child of
             Some newNodes \<Rightarrow> Some newNodes
           | None \<Rightarrow> splitNodeTypes child))"

definition voidReturn :: "node \<Rightarrow> node list option" where
  "voidReturn child =
     (case child of
        AST_Return v \<Rightarrow>
          (case v of
             Some (AST_UnaryPrefix operator expression) \<Rightarrow>
               (if operator = ''void''
                then Some [AST_SimpleStatement expression, AST_Return None]
                else None)
           | _ \<Rightarrow> None)
      | _ \<Rightarrow> None)"

datatype callback = SplitSequence | VoidReturn

fun replace :: "callback \<Rightarrow> node \<Rightarrow> node list option" where
  "replace SplitSequence child = splitSequence child"
| "replace VoidReturn child = voidReturn child"


lemma sequenceParts_weight: "sequenceParts node = Some (car, cdr) \<Longrightarrow> weight node = 2 + weight car + weight cdr"
  by (cases node) (simp_all add: sequenceParts_def)

lemma valueSequence_weight:
  "valueSequence v = Some (car, cdr) \<Longrightarrow> (case v of None \<Rightarrow> 0 | Some a \<Rightarrow> weight a) = 2 + weight car + weight cdr"
  by (cases v) (simp_all add: valueSequence_def sequenceParts_weight)

lemma splitDefinitions_weight:
  "splitDefinitions ds = Some (car, ds') \<Longrightarrow> sum_list (map weight ds) = 2 + weight car + sum_list (map weight ds')"
proof (induction ds arbitrary: ds')
  case Nil
  then show ?case by simp
next
  case (Cons d rest)
  show ?case
  proof (cases "case d of AST_VarDef name v \<Rightarrow> map_option (Pair name) (valueSequence v) | _ \<Rightarrow> None")
    case None
    with Cons.prems obtain rest' where r: "splitDefinitions rest = Some (car, rest')" and d: "ds' = d # rest'"
      by (auto split: option.splits)
    from Cons.IH[OF r] show ?thesis by (simp add: d)
  next
    case (Some a)
    obtain name car0 cdr where a: "a = (name, car0, cdr)" by (cases a)
    from Some a obtain v where d: "d = AST_VarDef name v" and v: "valueSequence v = Some (car0, cdr)"
      by (cases d) auto
    from Cons.prems Some a have "car = car0" and "ds' = AST_VarDef name (Some cdr) # rest" by auto
    then show ?thesis using valueSequence_weight[OF v] by (simp add: d)
  qed
qed

lemma replace_weight:
  "replace cb child = Some newNodes \<Longrightarrow> Suc (sum_list (map weight newNodes)) = weight child \<and> length newNodes = 2"
proof (cases cb)
  case SplitSequence
  assume "replace cb child = Some newNodes"
  then have s: "splitSequence child = Some newNodes" using SplitSequence by simp
  show ?thesis
  proof (cases child)
    case (AST_Var ds)
    then show ?thesis using s
      by (auto simp: splitSequence_def splitVar_def splitAssign_def splitNodeTypes_def
            split: option.splits dest: splitDefinitions_weight)
  next
    case (AST_SimpleStatement body)
    then show ?thesis using s
      by (cases body)
         (auto simp: splitSequence_def splitVar_def splitAssign_def splitNodeTypes_def
            split: option.splits dest: sequenceParts_weight)
  qed (use s in \<open>auto simp: splitSequence_def splitVar_def splitAssign_def splitNodeTypes_def
            split: option.splits dest: sequenceParts_weight valueSequence_weight\<close>)
next
  case VoidReturn
  assume "replace cb child = Some newNodes"
  then show ?thesis using VoidReturn
    by (auto simp: voidReturn_def split: node.splits option.splits if_splits)
qed


text \<open>
  The \<^verbatim>\<open>while\<close> loop of \<^verbatim>\<open>replaceInBlock\<close>: when the callback returns nodes they replace
  the child and the index stays, so the first new node is looked at next; otherwise the index
  moves on.
\<close>

function replaceLoop :: "callback \<Rightarrow> node list \<Rightarrow> node list" where
  "replaceLoop cb [] = []"
| "replaceLoop cb (child # rest) =
     (case replace cb child of
        Some newNodes \<Rightarrow> replaceLoop cb (newNodes @ rest)
      | None \<Rightarrow> child # replaceLoop cb rest)"
  by pat_completeness auto
termination
  by (relation "measure (\<lambda>(cb, body). 2 * sum_list (map weight body) + length body)")
     (auto dest!: replace_weight)

text \<open>A field that holds a single node: the loop runs on the one-element list, and the
  field gets the node back when one is left, a new block statement otherwise.\<close>

definition replaceSingle :: "callback \<Rightarrow> node \<Rightarrow> node" where
  "replaceSingle cb body =
     (case replaceLoop cb [body] of
        [x] \<Rightarrow> x
      | xs \<Rightarrow> AST_BlockStatement xs)"

datatype field = Body | Alternative

text \<open>\<^verbatim>\<open>replaceInBlock(node, field, replace)\<close>, for the nodes it is called on: blocks, whose
  body is a list, and statements with a body, whose body (and alternative) is a node.\<close>

fun replaceInBlock :: "node \<Rightarrow> field \<Rightarrow> callback \<Rightarrow> node" where
  "replaceInBlock (AST_BlockStatement body) Body cb = AST_BlockStatement (replaceLoop cb body)"
| "replaceInBlock (AST_Toplevel body) Body cb = AST_Toplevel (replaceLoop cb body)"
| "replaceInBlock (AST_Function argnames body) Body cb = AST_Function argnames (replaceLoop cb body)"
| "replaceInBlock (AST_Defun name argnames body) Body cb = AST_Defun name argnames (replaceLoop cb body)"
| "replaceInBlock (AST_Switch expression body) Body cb = AST_Switch expression (replaceLoop cb body)"
| "replaceInBlock (AST_Case expression body) Body cb = AST_Case expression (replaceLoop cb body)"
| "replaceInBlock (AST_Default body) Body cb = AST_Default (replaceLoop cb body)"
| "replaceInBlock (AST_If condition body alternative) Body cb =
     AST_If condition (replaceSingle cb body) alternative"
| "replaceInBlock (AST_For init condition step body) Body cb =
     AST_For init condition step (replaceSingle cb body)"
| "replaceInBlock (AST_While condition body) Body cb = AST_While condition (replaceSingle cb body)"
| "replaceInBlock (AST_With expression body) Body cb = AST_With expression (replaceSingle cb body)"
| "replaceInBlock (AST_LabeledStatement label body) Body cb =
     AST_LabeledStatement label (replaceSingle cb body)"
| "replaceInBlock (AST_If condition body alternative) Alternative cb =
     AST_If condition body (map_option (replaceSingle cb) alternative)"
| "replaceInBlock node field cb = node"

definition removeSequences :: "node \<Rightarrow> field \<Rightarrow> node" where
  "removeSequences node field = replaceInBlock node field SplitSequence"


text \<open>
  \<^verbatim>\<open>transformBefore\<close>, rule by rule. The constants rules return a new node and nothing more
  is done with it. The sequences rules change the node in place. The conditionals rules
  build an \<^verbatim>\<open>if\<close> node, which is transformed in turn and returned; the rule for
  \<^verbatim>\<open>return void\<close> changes the node in place.
\<close>

definition numberValue :: "node \<Rightarrow> int option" where
  "numberValue node = (case node of AST_Number v \<Rightarrow> Some v | _ \<Rightarrow> None)"

definition constantsRule :: "node \<Rightarrow> node option" where
  "constantsRule node =
     (case binaryParts node of
        Some (operator, left, right) \<Rightarrow>
          (if operator = ''/'' \<and> numberValue left = Some 0 \<and> numberValue right = Some 0
           then Some AST_NaN
           else if operator = ''/'' \<and> numberValue left = Some 1 \<and> numberValue right = Some 0
           then Some AST_Infinity
           else None)
      | None \<Rightarrow>
          (case node of
             AST_UnaryPrefix operator expression \<Rightarrow>
               (if operator = ''!'' then
                  (case numberValue expression of
                     Some v \<Rightarrow> if v = 0 then Some AST_True else if v = 1 then Some AST_False else None
                   | None \<Rightarrow> None)
                else None)
           | _ \<Rightarrow> None))"

definition sequencesRule :: "node \<Rightarrow> node" where
  "sequencesRule node =
     (if is_Block node then removeSequences node Body
      else if is_StatementWithBody node then
        (if is_If node
         then removeSequences (removeSequences node Body) Alternative
         else removeSequences node Body)
      else node)"

definition conditionalParts :: "node \<Rightarrow> (node \<times> node \<times> node) option" where
  "conditionalParts node =
     (case node of
        AST_Conditional condition consequent alternative \<Rightarrow> Some (condition, consequent, alternative)
      | _ \<Rightarrow> None)"

definition conditionalsRule :: "node \<Rightarrow> node option" where
  "conditionalsRule node =
     (case node of
        AST_SimpleStatement body \<Rightarrow>
          (case binaryParts body of
             Some (operator, left, right) \<Rightarrow>
               (if operator = ''&&'' then
                  Some (AST_If left (asStatement right) None)
                else if operator = ''||'' then
                  Some (AST_If (AST_UnaryPrefix ''!'' left) (asStatement right) None)
                else None)
           | None \<Rightarrow>
               (case conditionalParts body of
                  Some (condition, consequent, alternative) \<Rightarrow>
                    Some (AST_If condition (asStatement consequent) (Some (asStatement alternative)))
                | None \<Rightarrow> None))
      | AST_Return v \<Rightarrow>
          (case v of
             None \<Rightarrow> None
           | Some e \<Rightarrow>
               (case conditionalParts e of
                  Some (condition, consequent, alternative) \<Rightarrow>
                    Some (AST_If condition (AST_Return (Some consequent))
                            (Some (AST_Return (Some alternative))))
                | None \<Rightarrow> None))
      | _ \<Rightarrow> None)"

definition voidReturnRule :: "node \<Rightarrow> node" where
  "voidReturnRule node =
     (if is_Block node \<or> is_StatementWithBody node then replaceInBlock node Body VoidReturn
      else node)"

lemma replaceLoop_weight:
  "sum_list (map weight (replaceLoop cb body)) + length (replaceLoop cb body)
     \<le> sum_list (map weight body) + length body"
proof (induction cb body rule: replaceLoop.induct)
  case (1 cb)
  then show ?case by simp
next
  case (2 cb child rest)
  show ?case
  proof (cases "replace cb child")
    case None
    then show ?thesis using 2(1) by simp
  next
    case (Some newNodes)
    then show ?thesis using 2(2)[OF Some] replace_weight[OF Some] by simp
  qed
qed

lemma replaceLoop_length: "length body \<le> length (replaceLoop cb body)"
proof (induction cb body rule: replaceLoop.induct)
  case (1 cb)
  then show ?case by simp
next
  case (2 cb child rest)
  show ?case
  proof (cases "replace cb child")
    case None
    then show ?thesis using 2(1) by simp
  next
    case (Some newNodes)
    then show ?thesis using 2(2)[OF Some] replace_weight[OF Some] by simp
  qed
qed

lemma replaceLoop_weight_le: "sum_list (map weight (replaceLoop cb body)) \<le> sum_list (map weight body)"
  using replaceLoop_weight[of cb body] replaceLoop_length[of body cb] by linarith

lemma replaceSingle_weight: "weight (replaceSingle cb body) \<le> weight body"
proof -
  have l: "sum_list (map weight (replaceLoop cb [body])) + length (replaceLoop cb [body]) \<le> weight body + 1"
    using replaceLoop_weight[of cb "[body]"] by simp
  have n: "1 \<le> length (replaceLoop cb [body])"
    using replaceLoop_length[of "[body]" cb] by simp
  show ?thesis
  proof (cases "replaceLoop cb [body]")
    case Nil
    then show ?thesis using n by simp
  next
    case (Cons x xs)
    then show ?thesis using l by (cases xs) (simp_all add: replaceSingle_def)
  qed
qed

lemma replaceInBlock_weight: "weight (replaceInBlock node field cb) \<le> weight node"
  by (cases "(node, field, cb)" rule: replaceInBlock.cases)
     (auto simp: replaceLoop_weight_le replaceSingle_weight add_le_mono split: option.splits)

lemma sequencesRule_weight: "weight (sequencesRule node) \<le> weight node"
  unfolding sequencesRule_def removeSequences_def
  using replaceInBlock_weight[of node Body SplitSequence]
    replaceInBlock_weight[of "replaceInBlock node Body SplitSequence" Alternative SplitSequence]
  by auto

lemma voidReturnRule_weight: "weight (voidReturnRule node) \<le> weight node"
  unfolding voidReturnRule_def using replaceInBlock_weight[of node Body VoidReturn] by auto

lemma asStatement_weight: "weight (asStatement node) \<le> Suc (weight node)"
  by (simp add: asStatement_def)

lemma binaryParts_weight:
  "binaryParts node = Some (operator, left, right) \<Longrightarrow> weight node = 4 + weight left + weight right"
  by (cases node) auto

lemma conditionalParts_weight:
  "conditionalParts node = Some (c, a, b) \<Longrightarrow> weight node = 3 + weight c + weight a + weight b"
  by (cases node) (auto simp: conditionalParts_def)

lemma conditionalsRule_weight:
  assumes "conditionalsRule node = Some newIf"
  shows "weight newIf < weight node"
proof (cases node)
  case (AST_SimpleStatement body)
  show ?thesis
  proof (cases "binaryParts body")
    case None
    with assms AST_SimpleStatement obtain c a b where
      cp: "conditionalParts body = Some (c, a, b)"
      and n: "newIf = AST_If c (asStatement a) (Some (asStatement b))"
      by (auto simp: conditionalsRule_def split: option.splits)
    show ?thesis
      using conditionalParts_weight[OF cp] asStatement_weight[of a] asStatement_weight[of b]
      by (simp add: n AST_SimpleStatement)
  next
    case (Some p)
    obtain operator left right where p: "p = (operator, left, right)" by (cases p)
    from assms AST_SimpleStatement Some p
    have "newIf = AST_If left (asStatement right) None
        \<or> newIf = AST_If (AST_UnaryPrefix ''!'' left) (asStatement right) None"
      by (auto simp: conditionalsRule_def split: if_splits)
    then show ?thesis
      using binaryParts_weight[OF Some[unfolded p]] asStatement_weight[of right]
      by (auto simp: AST_SimpleStatement)
  qed
next
  case (AST_Return v)
  with assms obtain e c a b where v: "v = Some e" and cp: "conditionalParts e = Some (c, a, b)"
    and n: "newIf = AST_If c (AST_Return (Some a)) (Some (AST_Return (Some b)))"
    by (auto simp: conditionalsRule_def split: option.splits)
  show ?thesis using conditionalParts_weight[OF cp] by (simp add: n AST_Return v)
qed (use assms in \<open>simp_all add: conditionalsRule_def\<close>)

text \<open>
  \<^verbatim>\<open>node.transform(tw)\<close> with \<^verbatim>\<open>transformBefore\<close> as the transformer's \<^verbatim>\<open>before\<close>: when
  \<^verbatim>\<open>before\<close> returns a node, that node is the result; otherwise the (changed) node is
  descended into.
\<close>

function transform :: "options \<Rightarrow> node \<Rightarrow> node" where
  "transform opts node =
     (case (if constants opts then constantsRule node else None) of
        Some atom \<Rightarrow> atom
      | None \<Rightarrow>
          (case (if conditionals opts
                 then conditionalsRule (if sequences opts then sequencesRule node else node)
                 else None) of
             Some newIf \<Rightarrow> transform opts newIf
           | None \<Rightarrow>
               descend (transform opts)
                 (if conditionals opts
                  then voidReturnRule (if sequences opts then sequencesRule node else node)
                  else (if sequences opts then sequencesRule node else node))))"
  by pat_completeness auto
termination
proof (relation "measure (\<lambda>(opts, node). weight node)", goal_cases)
  case 1
  then show ?case by simp
next
  case (2 opts node x)
  let ?n1 = "if sequences opts then sequencesRule node else node"
  let ?n2 = "if conditionals opts then voidReturnRule ?n1 else ?n1"
  from 2 have "weight x < weight ?n2" by (intro weight_children) simp
  also have "\<dots> \<le> weight ?n1" by (simp add: voidReturnRule_weight)
  also have "\<dots> \<le> weight node" by (simp add: sequencesRule_weight)
  finally show ?case by simp
next
  case (3 opts node newIf)
  then have "weight newIf < weight (if sequences opts then sequencesRule node else node)"
    by (auto dest: conditionalsRule_weight split: if_splits)
  also have "\<dots> \<le> weight node" by (simp add: sequencesRule_weight)
  finally show ?case by simp
qed

text \<open>
  \<^verbatim>\<open>decompress(node, userOptions)\<close> runs the transformer on the node, which is changed in
  place, and returns nothing: the caller goes on with the node it passed. The model returns
  the result of the transformer. For a \<^verbatim>\<open>Toplevel\<close> node, the only node the program calls
  \<^verbatim>\<open>decompress\<close> on, no rule returns another node, so that the result of the transformer
  is the node passed, changed. \<open>userOptions\<close> is taken with the defaults filled in.
\<close>

definition decompress :: "node \<Rightarrow> options \<Rightarrow> node" where
  "decompress node options = transform options node"

abbreviation (input) normalize :: "node \<Rightarrow> node" where
  "normalize \<equiv> transform defaultOptions"

declare transform.simps [simp del]
declare replaceLoop.simps [simp del]

section \<open>Module Assembler: \<^verbatim>\<open>extractModules\<close>\<close>

definition nth_opt :: "'a list \<Rightarrow> nat \<Rightarrow> 'a option" where
  "nth_opt xs i = (if i < length xs then Some (xs ! i) else None)"

text \<open>The store of the shared definition objects: the \<^verbatim>\<open>mangled_name\<close> of each, if set.\<close>

type_synonym defstore = "nat \<Rightarrow> string option"

definition mangled_name :: "defstore \<Rightarrow> thedef \<Rightarrow> string option" where
  "mangled_name ds d = (case d of NoDef \<Rightarrow> None | Def k \<Rightarrow> ds k | Own m \<Rightarrow> m)"

definition argNames :: "string list" where
  "argNames = [''require'', ''module'', ''exports'', ''moduleSource'', ''loadedModules'', ''mainIds'']"

text \<open>
  The body of the \<^verbatim>\<open>forEach\<close> of \<^verbatim>\<open>renameArguments\<close> for the argument at index \<open>i\<close>;
  \<^verbatim>\<open>argNames[i]\<close> is undefined from index 6 on, and then differs from every name.
\<close>

fun renameArgument :: "nat \<Rightarrow> symbol \<Rightarrow> defstore \<Rightarrow> symbol \<times> defstore" where
  "renameArgument i (name, d) ds =
     (if Some name \<noteq> nth_opt argNames i then
        (case d of
           NoDef \<Rightarrow> ((name, Own (nth_opt argNames i)), ds)
         | Own m \<Rightarrow> ((name, Own (nth_opt argNames i)), ds)
         | Def k \<Rightarrow> ((name, Def k), ds(k := nth_opt argNames i)))
      else ((name, d), ds))"

fun renameArgumentsFrom :: "nat \<Rightarrow> symbol list \<Rightarrow> defstore \<Rightarrow> symbol list \<times> defstore" where
  "renameArgumentsFrom i [] ds = ([], ds)"
| "renameArgumentsFrom i (arg # rest) ds =
     (case renameArgument i arg ds of
        (arg', ds') \<Rightarrow>
          (case renameArgumentsFrom (Suc i) rest ds' of
             (rest', ds'') \<Rightarrow> (arg' # rest', ds'')))"

definition renameArguments :: "node \<Rightarrow> defstore \<Rightarrow> error + node \<times> defstore" where
  "renameArguments func ds =
     (case func of
        AST_Function argnames body \<Rightarrow>
          (case renameArgumentsFrom 0 argnames ds of
             (argnames', ds') \<Rightarrow> Inr (AST_Function argnames' body, ds'))
      | AST_Defun name argnames body \<Rightarrow>
          (case renameArgumentsFrom 0 argnames ds of
             (argnames', ds') \<Rightarrow> Inr (AST_Defun name argnames' body, ds'))
      | _ \<Rightarrow> Inl (TypeError ''Cannot read property forEach of undefined''))"

text \<open>Decimal digits of a number, as JavaScript prints an array index or a length.\<close>

function decimal :: "nat \<Rightarrow> string" where
  "decimal n = (if n < 10 then [''0123456789'' ! n] else decimal (n div 10) @ [''0123456789'' ! (n mod 10)])"
  by pat_completeness auto
termination
  by (relation "measure id") auto

declare decimal.simps [simp del]

text \<open>
  \<^verbatim>\<open>mapping[name]\<close> in \<^verbatim>\<open>updateRequires\<close>. The mapping that \<^verbatim>\<open>extractModules\<close> passes is an
  array of pairs \<^verbatim>\<open>[rKey, moduleNames[id]]\<close>, and \<^verbatim>\<open>name\<close> is a string used as a property key
  of that array: an element when it is the decimal form of an index, the length for
  \<^verbatim>\<open>length\<close>, a member inherited from the prototypes of the array, and undefined otherwise.
  The result is \<open>Some\<close> of the text that the value gives when a string is added to it, for a
  truthy value, and \<open>None\<close> for a falsy one. The inherited members and their texts belong
  to the JavaScript engine and are the parameter \<open>inherited\<close>.
\<close>

definition mappingLookup ::
    "(string \<Rightarrow> string option) \<Rightarrow> (string \<times> string option) list \<Rightarrow> string \<Rightarrow> string option" where
  "mappingLookup inherited mapping name =
     (case find (\<lambda>i. decimal i = name) [0..<length mapping] of
        Some i \<Rightarrow>
          (case mapping ! i of
             (rKey, moduleName) \<Rightarrow>
               Some (rKey @ '','' @ (case moduleName of None \<Rightarrow> [] | Some n \<Rightarrow> n)))
      | None \<Rightarrow>
          if name = ''length'' then
            (if mapping = [] then None else Some (decimal (length mapping)))
          else inherited name)"

definition isRequire :: "defstore \<Rightarrow> node \<Rightarrow> bool" where
  "isRequire ds expression =
     (case expression of
        AST_SymbolRef name d \<Rightarrow> name = ''require'' \<or> mangled_name ds d = Some ''require''
      | _ \<Rightarrow> False)"

definition stringValue :: "node \<Rightarrow> string option" where
  "stringValue node = (case node of AST_String v \<Rightarrow> Some v | _ \<Rightarrow> None)"

text \<open>The visitor of \<^verbatim>\<open>updateRequires\<close> at one node.\<close>

definition visitRequire ::
    "(string \<Rightarrow> string option) \<Rightarrow> defstore \<Rightarrow> (string \<times> string option) list \<Rightarrow> node \<Rightarrow> node" where
  "visitRequire inherited ds mapping node =
     (case node of
        AST_Call expression args \<Rightarrow>
          (if isRequire ds expression \<and> length args = 1 then
             (case stringValue (hd args) of
                Some v \<Rightarrow>
                  (case mappingLookup inherited mapping (path_basename v ''.js'') of
                     Some text \<Rightarrow> AST_Call expression [AST_String (''./'' @ text @ ''.js'')]
                   | None \<Rightarrow> node)
              | None \<Rightarrow> node)
           else node)
      | _ \<Rightarrow> node)"

lemma visitRequire_weight: "weight (visitRequire inherited ds mapping node) = weight node"
  by (cases node)
     (auto simp: visitRequire_def stringValue_def length_Suc_conv split: option.splits node.splits)

text \<open>The visitor returns nothing, so the walker visits every node of the function.\<close>

function updateRequires ::
    "(string \<Rightarrow> string option) \<Rightarrow> defstore \<Rightarrow> (string \<times> string option) list \<Rightarrow> node \<Rightarrow> node" where
  "updateRequires inherited ds mapping node =
     descend (updateRequires inherited ds mapping) (visitRequire inherited ds mapping node)"
  by pat_completeness auto
termination
  by (relation "measure (\<lambda>(inherited, ds, mapping, node). weight node)")
     (auto dest: weight_children simp: visitRequire_weight)

declare updateRequires.simps [simp del]


text \<open>
  The two filters. \<^verbatim>\<open>this\<close> is the Name Table; \<^verbatim>\<open>split\<close> on a missing name and
  \<^verbatim>\<open>name[0]\<close> on a missing second segment throw. \<^verbatim>\<open>isBuiltinModule\<close> is the list of the
  host's builtin modules, a parameter. The second filter adds to the global set
  \<^verbatim>\<open>dependencies\<close>.
\<close>

definition truthy :: "string option \<Rightarrow> bool" where
  "truthy v = (case v of None \<Rightarrow> False | Some s \<Rightarrow> s \<noteq> [])"

definition isNotBuiltinModule ::
    "(string \<Rightarrow> bool) \<Rightarrow> (string \<rightharpoonup> string) \<Rightarrow> 'f objectProperty \<Rightarrow> error + bool" where
  "isNotBuiltinModule isBuiltinModule this objectProperty =
     (case this (key objectProperty) of
        None \<Rightarrow> Inl (TypeError ''Cannot read property split of undefined'')
      | Some name \<Rightarrow>
          (let path = split_slash name
           in Inr (\<not> (nth_opt path 0 = Some ''node_modules'' \<and> truthy (nth_opt path 1) \<and>
                       (case nth_opt path 1 of Some p1 \<Rightarrow> isBuiltinModule p1 | None \<Rightarrow> False)))))"

definition addDependency :: "string \<Rightarrow> string list \<Rightarrow> string list" where
  "addDependency name deps = (if name \<in> set deps then deps else deps @ [name])"

definition isNotPublishedDependency ::
    "(string \<rightharpoonup> string) \<Rightarrow> 'f objectProperty \<Rightarrow> string list \<Rightarrow> error + bool \<times> string list" where
  "isNotPublishedDependency this objectProperty deps =
     (case this (key objectProperty) of
        None \<Rightarrow> Inl (TypeError ''Cannot read property split of undefined'')
      | Some name0 \<Rightarrow>
          (let path = split_slash name0
           in if nth_opt path 0 = Some ''node_modules'' then
                (case nth_opt path 1 of
                   None \<Rightarrow> Inl (TypeError ''Cannot read property 0 of undefined'')
                 | Some p1 \<Rightarrow>
                     (let name = (if nth_opt p1 0 = Some CHR ''@'' \<and> truthy (nth_opt path 2)
                                  then p1 @ ''/'' @ (case nth_opt path 2 of Some p2 \<Rightarrow> p2 | None \<Rightarrow> [])
                                  else p1)
                      in if name = toLowerCase name
                         then Inr (False, addDependency name deps)
                         else Inr (True, deps)))
              else Inr (True, deps)))"

fun filterNotBuiltin ::
    "(string \<Rightarrow> bool) \<Rightarrow> (string \<rightharpoonup> string) \<Rightarrow> 'f objectProperty list \<Rightarrow> error + 'f objectProperty list" where
  "filterNotBuiltin isBuiltinModule this [] = Inr []"
| "filterNotBuiltin isBuiltinModule this (p # ps) =
     (case isNotBuiltinModule isBuiltinModule this p of
        Inl e \<Rightarrow> Inl e
      | Inr keep \<Rightarrow>
          (case filterNotBuiltin isBuiltinModule this ps of
             Inl e \<Rightarrow> Inl e
           | Inr rest \<Rightarrow> Inr (if keep then p # rest else rest)))"

fun filterNotPublished ::
    "(string \<rightharpoonup> string) \<Rightarrow> 'f objectProperty list \<Rightarrow> string list \<Rightarrow> error + 'f objectProperty list \<times> string list" where
  "filterNotPublished this [] deps = Inr ([], deps)"
| "filterNotPublished this (p # ps) deps =
     (case isNotPublishedDependency this p deps of
        Inl e \<Rightarrow> Inl e
      | Inr (keep, deps') \<Rightarrow>
          (case filterNotPublished this ps deps' of
             Inl e \<Rightarrow> Inl e
           | Inr (rest, deps'') \<Rightarrow> Inr (if keep then p # rest else rest, deps'')))"

text \<open>
  The \<^verbatim>\<open>map\<close>: the name of the module, its function, and the mapping, an array of pairs of
  the base name of each specifier and the name of its target (undefined when the target has
  none).
\<close>

definition moduleProperty ::
    "(string \<rightharpoonup> string) \<Rightarrow> node objectProperty \<Rightarrow> string \<times> node \<times> (string \<times> string option) list" where
  "moduleProperty this objectProperty =
     (case this (key objectProperty) of None \<Rightarrow> ''undefined'' | Some n \<Rightarrow> n,
      moduleFunction objectProperty,
      map (\<lambda>(k, ident). (path_basename k ''.js'', this ident)) (requireMapping objectProperty))"

record assembler =
  modules :: "string \<rightharpoonup> node"
  thedefs :: defstore
  dependencies :: "string list"

definition toplevelBody :: "node option \<Rightarrow> node list" where
  "toplevelBody module = (case module of Some (AST_Toplevel body) \<Rightarrow> body | _ \<Rightarrow> [])"

definition functionBody :: "node \<Rightarrow> node list" where
  "functionBody func =
     (case func of
        AST_Function argnames body \<Rightarrow> body
      | AST_Defun name argnames body \<Rightarrow> body
      | _ \<Rightarrow> [])"

text \<open>The body of the last \<^verbatim>\<open>forEach\<close> of \<^verbatim>\<open>extractModules\<close>.\<close>

fun assembleModule ::
    "(string \<Rightarrow> string option) \<Rightarrow> string \<times> node \<times> (string \<times> string option) list \<Rightarrow> assembler
       \<Rightarrow> error + assembler" where
  "assembleModule inherited (moduleName, func, moduleMapping) st =
     (case renameArguments func (thedefs st) of
        Inl e \<Rightarrow> Inl e
      | Inr (func', ds) \<Rightarrow>
          Inr (st\<lparr>modules := (modules st)(moduleName \<mapsto>
                    AST_Toplevel (toplevelBody (modules st moduleName) @
                                  functionBody (updateRequires inherited ds moduleMapping func'))),
                 thedefs := ds\<rparr>))"

definition extractModules ::
    "(string \<Rightarrow> bool) \<Rightarrow> (string \<Rightarrow> string option) \<Rightarrow> node objectProperty list \<Rightarrow> (string \<rightharpoonup> string)
       \<Rightarrow> defstore \<Rightarrow> string list \<Rightarrow> error + assembler" where
  "extractModules isBuiltinModule inherited moduleObject names ds deps =
     (case filterNotBuiltin isBuiltinModule names moduleObject of
        Inl e \<Rightarrow> Inl e
      | Inr notBuiltin \<Rightarrow>
          (case filterNotPublished names notBuiltin deps of
             Inl e \<Rightarrow> Inl e
           | Inr (moduleProperties, deps') \<Rightarrow>
               foldE (assembleModule inherited) (map (moduleProperty names) moduleProperties)
                 \<lparr>modules = [''browser'' \<mapsto> AST_Toplevel []], thedefs = ds, dependencies = deps'\<rparr>))"

declare assembleModule.simps [simp del]

text \<open>
  The two-module bundle of the tests: module 1 is \<^verbatim>\<open>fib.js\<close>, module 2 is the entry
  \<^verbatim>\<open>main.js\<close>, which requires \<^verbatim>\<open>./fib\<close>.
\<close>

definition fibBody :: "node list" where
  "fibBody =
     [AST_Defun (''fib'', Def 0) [(''n'', Def 1)]
        [AST_Return (Some (AST_Conditional
           (AST_Binary ''<'' (AST_SymbolRef ''n'' (Def 1)) (AST_Number 2))
           (AST_SymbolRef ''n'' (Def 1))
           (AST_Binary ''+''
              (AST_Call (AST_SymbolRef ''fib'' (Def 0))
                 [AST_Binary ''-'' (AST_SymbolRef ''n'' (Def 1)) (AST_Number 1)])
              (AST_Call (AST_SymbolRef ''fib'' (Def 0))
                 [AST_Binary ''-'' (AST_SymbolRef ''n'' (Def 1)) (AST_Number 2)]))))],
      AST_SimpleStatement
        (AST_Assign ''='' (AST_Dot (AST_SymbolRef ''module'' (Def 3)) ''exports'')
           (AST_SymbolRef ''fib'' (Def 0)))]"

definition mainBody :: "node list" where
  "mainBody =
     [AST_Var [AST_VarDef (''fib'', Def 8)
        (Some (AST_Call (AST_SymbolRef ''require'' (Def 5)) [AST_String ''./fib'']))],
      AST_SimpleStatement
        (AST_Call (AST_Dot (AST_SymbolRef ''console'' NoDef) ''log'')
           [AST_Call (AST_SymbolRef ''fib'' (Def 8)) [AST_Number 10]])]"

definition fibBundle :: "node objectProperty list" where
  "fibBundle =
     [\<lparr>key = ''1'',
       moduleFunction = AST_Function [(''require'', Def 2), (''module'', Def 3), (''exports'', Def 4)] fibBody,
       requireMapping = []\<rparr>,
      \<lparr>key = ''2'',
       moduleFunction = AST_Function [(''require'', Def 5), (''module'', Def 6), (''exports'', Def 7)] mainBody,
       requireMapping = [(''./fib'', ''1'')]\<rparr>]"

text \<open>The parameters of a module function already have the canonical names, position by position.\<close>

definition canonicalArguments :: "node \<Rightarrow> bool" where
  "canonicalArguments func =
     (case func of
        AST_Function argnames body \<Rightarrow>
          length argnames \<le> length argNames \<and> map fst argnames = take (length argnames) argNames
      | AST_Defun name argnames body \<Rightarrow>
          length argnames \<le> length argNames \<and> map fst argnames = take (length argnames) argNames
      | _ \<Rightarrow> False)"

section \<open>Trees the normalizer has nothing left to do on\<close>

text \<open>
  The head of a node, as far as the rules of \<^verbatim>\<open>transformBefore\<close> look at it: the constants
  rules read the operator of a binary or prefix node and the values of number operands, the
  conditionals rules read the operator of the expression of a statement or \<^verbatim>\<open>return\<close>.
\<close>

datatype kind = KNumber int | KBinary string | KConditional | KUnaryPrefix string | KReturn
  | KSimpleStatement | KOther

definition kind :: "node \<Rightarrow> kind" where
  "kind node =
     (case node of
        AST_Number v \<Rightarrow> KNumber v
      | AST_Binary operator left right \<Rightarrow> KBinary operator
      | AST_Assign operator left right \<Rightarrow> KBinary operator
      | AST_Conditional condition consequent alternative \<Rightarrow> KConditional
      | AST_UnaryPrefix operator expression \<Rightarrow> KUnaryPrefix operator
      | AST_Return v \<Rightarrow> KReturn
      | AST_SimpleStatement body \<Rightarrow> KSimpleStatement
      | _ \<Rightarrow> KOther)"

text \<open>
  A tree is \<open>settled\<close> when the sequences rule changes none of its nodes: no block and no
  body of a statement holds a statement that \<^verbatim>\<open>removeSequences\<close> splits. A tree is
  \<open>seqFree\<close> when it holds no comma expression at all.
\<close>

function settled :: "node \<Rightarrow> bool" where
  "settled node = (sequencesRule node = node \<and> (\<forall>c\<in>set (children node). settled c))"
  by pat_completeness auto
termination
  by (relation "measure weight") (auto simp: weight_children)

declare settled.simps [simp del]

function seqFree :: "node \<Rightarrow> bool" where
  "seqFree node = (sequenceParts node = None \<and> (\<forall>c\<in>set (children node). seqFree c))"
  by pat_completeness auto
termination
  by (relation "measure weight") (auto simp: weight_children)

declare seqFree.simps [simp del]

text \<open>The program \<^verbatim>\<open>a && b(); return void c();\<close>.\<close>

definition shortCircuitProgram :: node where
  "shortCircuitProgram =
     AST_Toplevel
       [AST_SimpleStatement
          (AST_Binary ''&&'' (AST_SymbolRef ''a'' NoDef) (AST_Call (AST_SymbolRef ''b'' NoDef) [])),
        AST_Return (Some (AST_UnaryPrefix ''void'' (AST_Call (AST_SymbolRef ''c'' NoDef) [])))]"

section \<open>Properties of the Module Name Resolver\<close>

lemmas path_eval = candidateName_def startsWith_def path_join_def path_dirname_def
  path_normalize_def normalizeString_def normalizeStep_def named_def toLowerCase_def toLowerChar_def

lemma join_slash_Nil_iff: "join_slash ss = [] \<longleftrightarrow> (\<forall>s\<in>set ss. s = []) \<and> length ss \<le> 1"
  by (induction ss rule: join_slash.induct) auto

lemma path_normalize_nonempty: "path_normalize p \<noteq> []"
  by (simp add: path_normalize_def Let_def)

lemma path_join_nonempty: "path_join args \<noteq> []"
  by (simp add: path_join_def Let_def path_normalize_nonempty)

lemma candidateName_nonempty: "candidateName moduleName spec \<noteq> []"
  by (simp add: candidateName_def path_join_nonempty)



lemma requireStep_namedIds:
  assumes "moduleId \<in> namedIds st"
  shows "namedIds (snd (requireStep moduleId (moduleName, st) (spec, t))) = insert t (namedIds st)"
  using assms candidateName_nonempty[of moduleName spec]
  by (auto simp: requireStep.simps namedIds_def named_def Let_def split: option.splits if_splits)

lemma foldl_requireStep_namedIds:
  "moduleId \<in> namedIds st \<Longrightarrow>
   namedIds (snd (foldl (requireStep moduleId) (moduleName, st) ms)) = namedIds st \<union> snd ` set ms"
proof (induction ms arbitrary: moduleName st)
  case Nil
  then show ?case by simp
next
  case (Cons m ms)
  obtain spec t where m: "m = (spec, t)" by (cases m)
  obtain mn' st' where r: "requireStep moduleId (moduleName, st) (spec, t) = (mn', st')"
    by (cases "requireStep moduleId (moduleName, st) (spec, t)")
  have n: "namedIds st' = insert t (namedIds st)"
    using requireStep_namedIds[OF Cons.prems, of moduleName spec t] r by simp
  then have "moduleId \<in> namedIds st'" using Cons.prems by simp
  from Cons.IH[OF this, of mn'] show ?case
    by (simp add: m r n)
qed

lemma processProperty_namedIds:
  "named (moduleNames st) (key p) = Some moduleName \<Longrightarrow>
   namedIds (processProperty p moduleName st) = namedIds st \<union> snd ` set (requireMapping p)"
  unfolding processProperty_def
  by (rule foldl_requireStep_namedIds) (simp add: namedIds_def)


subsection \<open>Rotation and spinning\<close>

lemma worklist_Nil: "worklist [] st = Some st"
  by (simp add: worklist.simps)

lemma worklist_defer:
  "named (moduleNames st) (key p) = None \<Longrightarrow> worklist (p # rest) st = worklist (rest @ [p]) st"
  by (subst worklist.simps) simp

lemma worklist_process:
  "named (moduleNames st) (key p) = Some moduleName \<Longrightarrow>
   worklist (p # rest) st = worklist rest (processProperty p moduleName st)"
  by (subst worklist.simps) simp

lemma worklist_rotate:
  assumes "\<forall>u\<in>set us. named (moduleNames st) (key u) = None"
    and "named (moduleNames st) (key p) = Some moduleName"
  shows "worklist (us @ p # vs) st = worklist (vs @ us) (processProperty p moduleName st)"
  using assms
proof (induction us arbitrary: vs)
  case Nil
  then show ?case by (simp add: worklist_process)
next
  case (Cons u us)
  have "worklist ((u # us) @ p # vs) st = worklist (us @ p # (vs @ [u])) st"
    using Cons.prems(1) by (simp add: worklist_defer)
  also have "\<dots> = worklist ((vs @ [u]) @ us) (processProperty p moduleName st)"
    using Cons.prems by (intro Cons.IH) auto
  finally show ?case by simp
qed

lemma reach_mono:
  assumes "x \<in> reach S E" and "S \<subseteq> reach S' E'"
    and "\<And>p spec t. p \<in> E \<Longrightarrow> key p \<in> reach S' E' \<Longrightarrow> (spec, t) \<in> set (requireMapping p) \<Longrightarrow> t \<in> reach S' E'"
  shows "x \<in> reach S' E'"
  using assms(1)
proof (induction rule: reach.induct)
  case (seed x)
  then show ?case using assms(2) by auto
next
  case (edge p spec t)
  then show ?case using assms(3) by blast
qed

lemma reach_named_entry:
  assumes "x \<in> reach (namedIds st) (set q)"
  shows "x \<in> namedIds st \<or> (\<exists>p\<in>set q. key p \<in> namedIds st)"
  using assms by (induction rule: reach.induct) auto

text \<open>After a property has been processed, everything reachable before is still reachable.\<close>

lemma reach_after_process:
  assumes nm: "named (moduleNames st) (key p) = Some moduleName"
    and x: "x \<in> reach (namedIds st) (insert p E)"
  shows "x \<in> reach (namedIds (processProperty p moduleName st)) E"
proof (rule reach_mono[OF x])
  show "namedIds st \<subseteq> reach (namedIds (processProperty p moduleName st)) E"
    using processProperty_namedIds[OF nm] by (auto intro: reach.seed)
next
  fix p' spec t
  assume p': "p' \<in> insert p E"
    and k: "key p' \<in> reach (namedIds (processProperty p moduleName st)) E"
    and m: "(spec, t) \<in> set (requireMapping p')"
  show "t \<in> reach (namedIds (processProperty p moduleName st)) E"
  proof (cases "p' = p")
    case True
    then have "t \<in> namedIds (processProperty p moduleName st)"
      using processProperty_namedIds[OF nm] m by force
    then show ?thesis by (rule reach.seed)
  next
    case False
    then have "p' \<in> E" using p' by simp
    then show ?thesis using k m by (rule reach.edge)
  qed
qed

lemma reach_before_process:
  assumes nm: "named (moduleNames st) (key p) = Some moduleName"
    and x: "x \<in> reach (namedIds (processProperty p moduleName st)) E"
  shows "x \<in> reach (namedIds st) (insert p E)"
proof (rule reach_mono[OF x])
  have kp: "key p \<in> reach (namedIds st) (insert p E)"
    using nm by (auto simp: namedIds_def intro: reach.seed)
  show "namedIds (processProperty p moduleName st) \<subseteq> reach (namedIds st) (insert p E)"
  proof
    fix y assume "y \<in> namedIds (processProperty p moduleName st)"
    then consider "y \<in> namedIds st" | spec where "(spec, y) \<in> set (requireMapping p)"
      using processProperty_namedIds[OF nm] by auto
    then show "y \<in> reach (namedIds st) (insert p E)"
    proof cases
      case 1 then show ?thesis by (rule reach.seed)
    next
      case 2 show ?thesis by (rule reach.edge[OF _ kp 2]) simp
    qed
  qed
next
  fix p' spec t
  assume "p' \<in> E" "key p' \<in> reach (namedIds st) (insert p E)" "(spec, t) \<in> set (requireMapping p')"
  then show "t \<in> reach (namedIds st) (insert p E)"
    by (intro reach.edge[of p' _ _ spec t]) auto
qed

text \<open>The loop returns exactly when every property's id can be reached.\<close>

lemma worklist_returns:
  assumes "\<forall>p\<in>set q. key p \<in> reach (namedIds st) (set q)"
  shows "\<exists>st'. worklist q st = Some st'"
  using assms
proof (induction "length q" arbitrary: q st rule: less_induct)
  case less
  show ?case
  proof (cases q)
    case Nil
    then show ?thesis by (simp add: worklist_Nil)
  next
    case (Cons p0 rest)
    then have "key p0 \<in> reach (namedIds st) (set q)" using less.prems by simp
    from reach_named_entry[OF this] have "\<exists>p\<in>set q. key p \<in> namedIds st"
      using Cons by auto
    then have "\<exists>p\<in>set q. named (moduleNames st) (key p) \<noteq> None"
      by (simp add: namedIds_def)
    from split_list_first_prop[OF this] obtain us p vs where
      q: "q = us @ p # vs" and pn: "named (moduleNames st) (key p) \<noteq> None"
      and us: "\<forall>u\<in>set us. \<not> named (moduleNames st) (key u) \<noteq> None"
      by blast
    from pn obtain moduleName where nm: "named (moduleNames st) (key p) = Some moduleName" by auto
    let ?st = "processProperty p moduleName st"
    have rot: "worklist q st = worklist (vs @ us) ?st"
      unfolding q using us nm by (intro worklist_rotate) auto
    have "\<forall>p'\<in>set (vs @ us). key p' \<in> reach (namedIds ?st) (set (vs @ us))"
    proof
      fix p' assume p': "p' \<in> set (vs @ us)"
      then have "key p' \<in> reach (namedIds st) (set q)" using less.prems q by auto
      then have "key p' \<in> reach (namedIds st) (insert p (set (vs @ us)))"
        by (simp add: q Un_commute)
      from reach_after_process[OF nm this] show "key p' \<in> reach (namedIds ?st) (set (vs @ us))" .
    qed
    moreover have "length (vs @ us) < length q" by (simp add: q)
    ultimately have "\<exists>st'. worklist (vs @ us) ?st = Some st'" by (rule less.hyps[rotated])
    then show ?thesis by (simp add: rot)
  qed
qed

lemma worklist_Some_reach:
  assumes "worklist q st = Some st'"
  shows "\<forall>p\<in>set q. key p \<in> reach (namedIds st) (set q)"
proof (rule worklist.raw_induct[where P = "\<lambda>q st st'. \<forall>p\<in>set q. key p \<in> reach (namedIds st) (set q)", OF _ assms])
  fix f :: "'a objectProperty list \<Rightarrow> resolver \<Rightarrow> resolver option" and q st st'
  assume IH: "\<And>q st st'. f q st = Some st' \<Longrightarrow> \<forall>p\<in>set q. key p \<in> reach (namedIds st) (set q)"
    and step: "(case q of [] \<Rightarrow> Some st
      | objectProperty # rest \<Rightarrow>
          (case named (moduleNames st) (key objectProperty) of
             None \<Rightarrow> f (rest @ [objectProperty]) st
           | Some moduleName \<Rightarrow> f rest (processProperty objectProperty moduleName st))) = Some st'"
  show "\<forall>p\<in>set q. key p \<in> reach (namedIds st) (set q)"
  proof (cases q)
    case Nil
    then show ?thesis by simp
  next
    case (Cons p rest)
    show ?thesis
    proof (cases "named (moduleNames st) (key p)")
      case None
      then have "f (rest @ [p]) st = Some st'" using step Cons by simp
      from IH[OF this] show ?thesis by (simp add: Cons Un_commute)
    next
      case (Some moduleName)
      then have "f rest (processProperty p moduleName st) = Some st'"
        using step Cons by simp
      from IH[OF this]
      have ih: "\<forall>p'\<in>set rest. key p' \<in> reach (namedIds (processProperty p moduleName st)) (set rest)" .
      have "key p \<in> reach (namedIds st) (set q)"
        using Some by (auto simp: namedIds_def intro: reach.seed)
      moreover have "\<forall>p'\<in>set rest. key p' \<in> reach (namedIds st) (set q)"
        using ih reach_before_process[OF Some] by (auto simp: Cons)
      ultimately show ?thesis by (simp add: Cons)
    qed
  qed
qed

lemma worklist_None_iff:
  "worklist q st = None \<longleftrightarrow> (\<exists>p\<in>set q. key p \<notin> reach (namedIds st) (set q))"
  using worklist_returns[of q st] worklist_Some_reach[of q st] by (cases "worklist q st") auto

lemmas resolver_eval = extractModuleNames_def seedNames_def worklist.simps processProperty_def
  requireStep.simps path_eval




text \<open>
  Claim C2 says that the worklist loop ends on every module map. On a map with a property
  that no named module requires, the loop of the code never returns: here module 2 is
  neither an entry nor required.
\<close>

theorem worklist_unreachable_diverges:
  "extractModuleNames
     [\<lparr>key = ''1'', moduleFunction = (), requireMapping = []\<rparr>,
      \<lparr>key = ''2'', moduleFunction = (), requireMapping = []\<rparr>]
     [''1'']
   = None"
proof -
  let ?q = "[\<lparr>key = ''1'', moduleFunction = (), requireMapping = []\<rparr>,
      \<lparr>key = ''2'', moduleFunction = (), requireMapping = []\<rparr>]"
  let ?st = "\<lparr>moduleNames = seedNames [''1''], warnings = []\<rparr>"
  have "''2'' \<notin> reach (namedIds ?st) (set ?q)"
  proof
    assume "''2'' \<in> reach (namedIds ?st) (set ?q)"
    then show False
      by (cases rule: reach.cases) (auto simp: namedIds_def named_def seedNames_def)
  qed
  then have "\<exists>p\<in>set ?q. key p \<notin> reach (namedIds ?st) (set ?q)" by simp
  then show ?thesis unfolding extractModuleNames_def by (simp only: worklist_None_iff)
qed

lemma foldl_seed: "foldl (\<lambda>m element. m(element \<mapsto> b)) m0 main k = (if k \<in> set main then Some b else m0 k)"
  by (induction main arbitrary: m0) auto

lemma seedNames_apply: "seedNames main k = (if k \<in> set main then Some ''browser'' else None)"
  by (simp add: seedNames_def foldl_seed)

lemma requireStep_agrees:
  assumes "agrees N st" and "candidateName (N moduleId) spec = N t"
  shows "\<exists>st'. requireStep moduleId (N moduleId, st) (spec, t) = (N moduleId, st') \<and> agrees N st'
            \<and> dom (moduleNames st') = insert t (dom (moduleNames st))"
proof (cases "named (moduleNames st) t")
  case None
  then have "requireStep moduleId (N moduleId, st) (spec, t) =
      (N moduleId, st\<lparr>moduleNames := (moduleNames st)(t \<mapsto> N t)\<rparr>)"
    using assms(2) by (simp add: requireStep.simps)
  moreover have "agrees N (st\<lparr>moduleNames := (moduleNames st)(t \<mapsto> N t)\<rparr>)"
    using assms(1) by (auto simp: agrees_def)
  ultimately show ?thesis by simp
next
  case (Some existing)
  then have m: "moduleNames st t = Some existing"
    by (auto simp: named_def split: option.splits if_splits)
  then have "existing = N t" using assms(1) by (simp add: agrees_def)
  then have "requireStep moduleId (N moduleId, st) (spec, t) = (N moduleId, st)"
    using Some assms(2) by (simp add: requireStep.simps)
  then show ?thesis using assms(1) m by auto
qed

lemma foldl_requireStep_agrees:
  assumes "agrees N st" and "\<forall>(spec, t)\<in>set ms. candidateName (N moduleId) spec = N t"
  shows "\<exists>st'. foldl (requireStep moduleId) (N moduleId, st) ms = (N moduleId, st') \<and> agrees N st'
            \<and> dom (moduleNames st') = dom (moduleNames st) \<union> snd ` set ms"
  using assms
proof (induction ms arbitrary: st)
  case Nil
  then show ?case by simp
next
  case (Cons m ms)
  obtain spec t where m: "m = (spec, t)" by (cases m)
  have c: "candidateName (N moduleId) spec = N t" using Cons.prems(2) m by simp
  from requireStep_agrees[OF Cons.prems(1) c] obtain st1 where
    s1: "requireStep moduleId (N moduleId, st) (spec, t) = (N moduleId, st1)"
    and a1: "agrees N st1" and d1: "dom (moduleNames st1) = insert t (dom (moduleNames st))"
    by blast
  have "\<forall>(spec, t)\<in>set ms. candidateName (N moduleId) spec = N t" using Cons.prems(2) by simp
  from Cons.IH[OF a1 this] obtain st' where
    "foldl (requireStep moduleId) (N moduleId, st1) ms = (N moduleId, st')" "agrees N st'"
    "dom (moduleNames st') = dom (moduleNames st1) \<union> snd ` set ms" by blast
  then show ?case by (auto simp: m s1 d1)
qed

lemma worklist_agrees:
  assumes "worklist q st = Some st'"
  shows "agrees N st \<and> (\<forall>p\<in>set q. \<forall>(spec, t)\<in>set (requireMapping p). candidateName (N (key p)) spec = N t)
     \<longrightarrow> agrees N st' \<and> dom (moduleNames st') = dom (moduleNames st) \<union> (\<Union>p\<in>set q. snd ` set (requireMapping p))"
proof (rule worklist.raw_induct[where P = "\<lambda>q st st'. agrees N st \<and> (\<forall>p\<in>set q. \<forall>(spec, t)\<in>set (requireMapping p). candidateName (N (key p)) spec = N t)
     \<longrightarrow> agrees N st' \<and> dom (moduleNames st') = dom (moduleNames st) \<union> (\<Union>p\<in>set q. snd ` set (requireMapping p))", OF _ assms])
  fix f :: "'a objectProperty list \<Rightarrow> resolver \<Rightarrow> resolver option" and q st st'
  assume IH: "\<And>q st st'. f q st = Some st' \<Longrightarrow> agrees N st \<and> (\<forall>p\<in>set q. \<forall>(spec, t)\<in>set (requireMapping p). candidateName (N (key p)) spec = N t)
     \<longrightarrow> agrees N st' \<and> dom (moduleNames st') = dom (moduleNames st) \<union> (\<Union>p\<in>set q. snd ` set (requireMapping p))"
    and step: "(case q of [] \<Rightarrow> Some st
      | objectProperty # rest \<Rightarrow>
          (case named (moduleNames st) (key objectProperty) of
             None \<Rightarrow> f (rest @ [objectProperty]) st
           | Some moduleName \<Rightarrow> f rest (processProperty objectProperty moduleName st))) = Some st'"
  show "agrees N st \<and> (\<forall>p\<in>set q. \<forall>(spec, t)\<in>set (requireMapping p). candidateName (N (key p)) spec = N t)
     \<longrightarrow> agrees N st' \<and> dom (moduleNames st') = dom (moduleNames st) \<union> (\<Union>p\<in>set q. snd ` set (requireMapping p))"
  proof (intro impI, elim conjE)
    assume ag: "agrees N st"
      and co: "\<forall>p\<in>set q. \<forall>(spec, t)\<in>set (requireMapping p). candidateName (N (key p)) spec = N t"
    show "agrees N st' \<and> dom (moduleNames st') = dom (moduleNames st) \<union> (\<Union>p\<in>set q. snd ` set (requireMapping p))"
    proof (cases q)
      case Nil
      then show ?thesis using step ag by simp
    next
      case (Cons p rest)
      show ?thesis
      proof (cases "named (moduleNames st) (key p)")
        case None
        then have "f (rest @ [p]) st = Some st'" using step Cons by simp
        from IH[OF this] ag co show ?thesis by (auto simp: Cons)
      next
        case (Some moduleName)
        then have fr: "f rest (processProperty p moduleName st) = Some st'"
          using step Cons by simp
        have "moduleNames st (key p) = Some moduleName"
          using Some by (auto simp: named_def split: option.splits if_splits)
        then have mn: "moduleName = N (key p)" using ag by (simp add: agrees_def)
        have "\<forall>(spec, t)\<in>set (requireMapping p). candidateName (N (key p)) spec = N t"
          using co Cons by simp
        from foldl_requireStep_agrees[OF ag this] obtain st1 where
          "foldl (requireStep (key p)) (N (key p), st) (requireMapping p) = (N (key p), st1)"
          and a1: "agrees N st1"
          and d1: "dom (moduleNames st1) = dom (moduleNames st) \<union> snd ` set (requireMapping p)"
          by blast
        then have pp: "processProperty p moduleName st = st1"
          by (simp add: processProperty_def mn)
        have "\<forall>p\<in>set rest. \<forall>(spec, t)\<in>set (requireMapping p). candidateName (N (key p)) spec = N t"
          using co Cons by simp
        with IH[OF fr] a1 have "agrees N st'"
          and "dom (moduleNames st') = dom (moduleNames st1) \<union> (\<Union>p\<in>set rest. snd ` set (requireMapping p))"
          by (simp_all add: pp)
        then show ?thesis by (auto simp: Cons d1)
      qed
    qed
  qed
qed

lemma agrees_unique:
  assumes "agrees N st1" "agrees N st2" "dom (moduleNames st1) = dom (moduleNames st2)"
  shows "st1 = (st2 :: resolver)"
proof -
  have "moduleNames st1 k = moduleNames st2 k" for k
  proof (cases "moduleNames st1 k")
    case None
    then have "k \<notin> dom (moduleNames st1)" by (simp add: domIff)
    then have "k \<notin> dom (moduleNames st2)" using assms(3) by simp
    then show ?thesis using None by (simp add: domIff)
  next
    case (Some v)
    then have "k \<in> dom (moduleNames st1)" by (simp add: domIff)
    then have "k \<in> dom (moduleNames st2)" using assms(3) by simp
    then obtain w where "moduleNames st2 k = Some w" by auto
    then show ?thesis using Some assms(1,2) by (auto simp: agrees_def)
  qed
  then have "moduleNames st1 = moduleNames st2" by (rule ext)
  moreover have "warnings st1 = warnings st2" using assms(1,2) by (simp add: agrees_def)
  ultimately show ?thesis by simp
qed

text \<open>
  Claim C7, as the code has it. When the require evidence of the bundle is consistent, that
  is, some naming \<open>N\<close> gives the entry ids the name \<^verbatim>\<open>browser\<close> and the candidate computed for
  every pair of every require mapping is the name \<open>N\<close> gives to its target, then resolution
  of any shuffled copy of the module map gives the same result: the same Name Table with no
  warnings, or no return in either order.
\<close>

theorem resolution_order_independent:
  assumes seeds: "\<forall>e\<in>set main. N e = ''browser''"
    and cons: "\<forall>p\<in>set moduleObject. \<forall>(spec, t)\<in>set (requireMapping p). candidateName (N (key p)) spec = N t"
    and shuffle: "mset shuffled = mset moduleObject"
  shows "extractModuleNames shuffled main = extractModuleNames moduleObject main"
proof -
  let ?st = "\<lparr>moduleNames = seedNames main, warnings = []\<rparr>"
  have seteq: "set shuffled = set moduleObject" using shuffle by (rule mset_eq_setD)
  have ag: "agrees N ?st" using seeds by (auto simp: agrees_def seedNames_apply split: if_splits)
  show ?thesis
  proof (cases "worklist moduleObject ?st")
    case None
    then have "worklist shuffled ?st = None" unfolding worklist_None_iff seteq .
    with None show ?thesis by (simp add: extractModuleNames_def)
  next
    case (Some st1)
    then have "worklist moduleObject ?st \<noteq> None" by simp
    then have "worklist shuffled ?st \<noteq> None" unfolding worklist_None_iff seteq .
    then obtain st2 where s2: "worklist shuffled ?st = Some st2" by auto
    have "agrees N st1" and "dom (moduleNames st1) = dom (moduleNames ?st) \<union> (\<Union>p\<in>set moduleObject. snd ` set (requireMapping p))"
      using worklist_agrees[OF Some, of N] ag cons by simp_all
    moreover have "agrees N st2" and "dom (moduleNames st2) = dom (moduleNames ?st) \<union> (\<Union>p\<in>set shuffled. snd ` set (requireMapping p))"
      using worklist_agrees[OF s2, of N] ag cons seteq by simp_all
    ultimately have "st2 = st1" by (intro agrees_unique[of N]) (simp_all add: seteq)
    then show ?thesis by (simp add: extractModuleNames_def Some s2)
  qed
qed

text \<open>
  Two siblings require the same module 4 as \<^verbatim>\<open>./Foo\<close> and as \<^verbatim>\<open>./foo\<close>. Names that differ
  in letter case only are not a conflict and the first one assigned stays, so the name of
  module 4 depends on which of the two properties comes first.
\<close>

theorem first_name_wins_counterexample:
  "extractModuleNames
     [\<lparr>key = ''1'', moduleFunction = (), requireMapping = [(''./a'', ''2''), (''./b'', ''3'')]\<rparr>,
      \<lparr>key = ''2'', moduleFunction = (), requireMapping = [(''./Foo'', ''4'')]\<rparr>,
      \<lparr>key = ''3'', moduleFunction = (), requireMapping = [(''./foo'', ''4'')]\<rparr>,
      \<lparr>key = ''4'', moduleFunction = (), requireMapping = []\<rparr>]
     [''1'']
   = Some \<lparr>moduleNames = [''1'' \<mapsto> ''browser'', ''2'' \<mapsto> ''a'', ''3'' \<mapsto> ''b'', ''4'' \<mapsto> ''Foo''], warnings = []\<rparr>
   \<and> extractModuleNames
     [\<lparr>key = ''1'', moduleFunction = (), requireMapping = [(''./a'', ''2''), (''./b'', ''3'')]\<rparr>,
      \<lparr>key = ''3'', moduleFunction = (), requireMapping = [(''./foo'', ''4'')]\<rparr>,
      \<lparr>key = ''2'', moduleFunction = (), requireMapping = [(''./Foo'', ''4'')]\<rparr>,
      \<lparr>key = ''4'', moduleFunction = (), requireMapping = []\<rparr>]
     [''1'']
   = Some \<lparr>moduleNames = [''1'' \<mapsto> ''browser'', ''2'' \<mapsto> ''a'', ''3'' \<mapsto> ''b'', ''4'' \<mapsto> ''foo''], warnings = []\<rparr>"
  by (simp add: resolver_eval)

theorem resolution_order_independent_witness:
  "extractModuleNames
     [\<lparr>key = ''3'', moduleFunction = (), requireMapping = []\<rparr>,
      \<lparr>key = ''2'', moduleFunction = (), requireMapping = [(''./lib/b'', ''3'')]\<rparr>,
      \<lparr>key = ''1'', moduleFunction = (), requireMapping = [(''./a'', ''2''), (''./lib/b'', ''3'')]\<rparr>]
     [''1'']
   = extractModuleNames
     [\<lparr>key = ''1'', moduleFunction = (), requireMapping = [(''./a'', ''2''), (''./lib/b'', ''3'')]\<rparr>,
      \<lparr>key = ''2'', moduleFunction = (), requireMapping = [(''./lib/b'', ''3'')]\<rparr>,
      \<lparr>key = ''3'', moduleFunction = (), requireMapping = []\<rparr>]
     [''1'']"
  by (rule resolution_order_independent
        [where N = "\<lambda>k. if k = ''1'' then ''browser'' else if k = ''2'' then ''a'' else ''lib/b''"])
     (simp_all add: path_eval)

section \<open>Properties of the Kernel Matcher\<close>

lemma matchAll_append:
  "matchAll (xs @ ys) s = (case matchAll xs s of Inl e \<Rightarrow> Inl e | Inr s' \<Rightarrow> matchAll ys s')"
  by (induction xs s rule: matchAll.induct) auto

lemma foldE_matchAll:
  assumes "\<And>x s. x \<in> set xs \<Longrightarrow> f x s = matchAll (outerCalls x) s"
  shows "foldE f xs s = matchAll (concat (map outerCalls xs)) s"
  using assms
proof (induction xs arbitrary: s)
  case Nil
  then show ?case by simp
next
  case (Cons x xs)
  then show ?case by (simp add: matchAll_append split: sum.splits)
qed

lemma walk_matchAll:
  "walk mainFunctionVisitor node s = matchAll (outerCalls node) s"
proof (induction node arbitrary: s rule: measure_induct_rule[where f = weight])
  case (less node)
  show ?case
  proof (cases "is_Call node")
    case True
    then show ?thesis
      by (subst walk.simps, subst outerCalls.simps) (simp add: mainFunctionVisitor_def split: option.splits)
  next
    case False
    have "foldE (walk mainFunctionVisitor) (children node) s = matchAll (concat (map outerCalls (children node))) s"
      by (rule foldE_matchAll) (simp add: less weight_children)
    with False show ?thesis
      by (subst walk.simps, subst outerCalls.simps) (simp add: mainFunctionVisitor_def)
  qed
qed

text \<open>
  Claim C5, as the code has it. The matches of \<^verbatim>\<open>findMainFunction\<close> are the call nodes of
  the tree that are not inside another call node, wherever they are, also inside nested
  functions. With no match the result is undefined, with one it is that call, and the
  assertion fails at the second.
\<close>

theorem findMainFunction_outermost_calls:
  "findMainFunction ast =
     (case outerCalls ast of
        [] \<Rightarrow> Inr None
      | [c] \<Rightarrow> Inr (Some c)
      | c # d # rest \<Rightarrow> Inl (AssertionError ''More than one top-level function found.''))"
  unfolding findMainFunction_def walk_matchAll
  by (simp split: list.splits)

lemmas walk_eval = findMainFunction_def mainFunctionVisitor_def walk.simps opt_list_def

text \<open>
  A call inside a function declaration is a match: \<^verbatim>\<open>function f(){ g(); }\<close> gives the call
  \<^verbatim>\<open>g()\<close>, and with the kernel call after it the assertion fails.
\<close>

theorem nested_function_call_counterexample:
  "findMainFunction
     (AST_Toplevel [AST_Defun (''f'', Def 0) []
        [AST_SimpleStatement (AST_Call (AST_SymbolRef ''g'' NoDef) [])]])
   = Inr (Some (AST_Call (AST_SymbolRef ''g'' NoDef) []))
   \<and> findMainFunction
     (AST_Toplevel [AST_Defun (''f'', Def 0) []
        [AST_SimpleStatement (AST_Call (AST_SymbolRef ''g'' NoDef) [])],
        AST_SimpleStatement (AST_UnaryPrefix ''!''
          (AST_Call (AST_Function [] []) [AST_SymbolRef ''foo'' NoDef]))])
   = Inl (AssertionError ''More than one top-level function found.'')"
  by (simp add: walk_eval)

section \<open>Properties of the Decompiler/Normalizer\<close>

lemmas decompress_eval = decompress_def defaultOptions_def transform.simps constantsRule_def
  sequencesRule_def conditionalsRule_def voidReturnRule_def removeSequences_def
  replaceLoop.simps replaceSingle_def splitSequence_def splitVar_def splitAssign_def
  splitNodeTypes_def voidReturn_def sequenceParts_def valueSequence_def numberValue_def
  conditionalParts_def asStatement_def

lemma transform_If:
  "transform defaultOptions (AST_If condition body alternative) =
     AST_If (transform defaultOptions condition)
       (transform defaultOptions (replaceSingle VoidReturn (replaceSingle SplitSequence body)))
       (map_option (\<lambda>a. transform defaultOptions (replaceSingle SplitSequence a)) alternative)"
  by (subst transform.simps)
     (simp add: defaultOptions_def constantsRule_def sequencesRule_def conditionalsRule_def
        voidReturnRule_def removeSequences_def option.map_comp comp_def)

lemma transform_SimpleStatement_rule:
  "conditionalsRule (AST_SimpleStatement body) = Some newIf \<Longrightarrow>
   transform defaultOptions (AST_SimpleStatement body) = transform defaultOptions newIf"
  by (subst transform.simps)
     (simp add: defaultOptions_def constantsRule_def sequencesRule_def)


lemma transform_Toplevel:
  "transform defaultOptions (AST_Toplevel body) =
     AST_Toplevel (map (transform defaultOptions) (replaceLoop VoidReturn (replaceLoop SplitSequence body)))"
  by (subst transform.simps)
     (simp add: defaultOptions_def constantsRule_def sequencesRule_def conditionalsRule_def
        voidReturnRule_def removeSequences_def)

lemma transform_BlockStatement:
  "transform defaultOptions (AST_BlockStatement body) =
     AST_BlockStatement (map (transform defaultOptions) (replaceLoop VoidReturn (replaceLoop SplitSequence body)))"
  by (subst transform.simps)
     (simp add: defaultOptions_def constantsRule_def sequencesRule_def conditionalsRule_def
        voidReturnRule_def removeSequences_def)


section \<open>A second run of the normalizer\<close>

lemma normalize_unfold:
  "normalize n = (case constantsRule n of
            Some atom \<Rightarrow> atom
          | None \<Rightarrow>
              (case conditionalsRule (sequencesRule n) of
                 Some newIf \<Rightarrow> normalize newIf
               | None \<Rightarrow> descend normalize (voidReturnRule (sequencesRule n))))"
  by (subst transform.simps) (simp add: defaultOptions_def)

lemma constantsRule_kind: "constantsRule x = Some a \<Longrightarrow> kind a = KOther"
  by (auto simp: constantsRule_def kind_def split: option.splits if_splits node.splits)

lemma conditionalsRule_If: "conditionalsRule x = Some i \<Longrightarrow> \<exists>c b a. i = AST_If c b a"
  by (auto simp: conditionalsRule_def split: option.splits if_splits node.splits)

lemma kind_descend: "kind (descend f x) = kind x"
  by (cases x) (simp_all add: kind_def)

lemma kind_replaceInBlock: "kind (replaceInBlock x field cb) = kind x"
  by (cases "(x, field, cb)" rule: replaceInBlock.cases) (simp_all add: kind_def)

lemma kind_sequencesRule: "kind (sequencesRule x) = kind x"
  by (simp add: sequencesRule_def removeSequences_def kind_replaceInBlock)

lemma kind_voidReturnRule: "kind (voidReturnRule x) = kind x"
  by (simp add: voidReturnRule_def kind_replaceInBlock)

lemma kind_normalize: "kind (normalize x) = kind x \<or> kind (normalize x) = KOther"
proof (cases "constantsRule x")
  case (Some a)
  then show ?thesis by (subst (1 2) normalize_unfold) (simp add: constantsRule_kind)
next
  case None
  show ?thesis
  proof (cases "conditionalsRule (sequencesRule x)")
    case (Some i)
    then obtain c b a where "i = AST_If c b a" using conditionalsRule_If by blast
    then have "kind (normalize i) = KOther" by (simp add: transform_If kind_def)
    then show ?thesis using None Some by (subst (1 2) normalize_unfold) simp
  next
    case n: None
    have "kind (descend normalize (voidReturnRule (sequencesRule x))) = kind x"
      by (simp add: kind_descend kind_voidReturnRule kind_sequencesRule)
    then show ?thesis using None n by (subst (1 2) normalize_unfold) simp
  qed
qed



lemma children_descend: "children (descend f x) = map f (children x)"
  by (cases x) (simp_all add: opt_list_def split: option.splits)

lemma descend_descend: "descend f (descend g x) = descend (\<lambda>c. f (g c)) x"
  by (cases x) (simp_all add: option.map_comp comp_def)

lemma kind_Number: "kind y = KNumber v \<longleftrightarrow> y = AST_Number v"
  by (cases y) (simp_all add: kind_def)

lemma numberValue_kind: "numberValue y = Some v \<longleftrightarrow> kind y = KNumber v"
  by (cases y) (auto simp: numberValue_def kind_def)

lemma binaryParts_kind: "(\<exists>l r. binaryParts y = Some (operator, l, r)) \<longleftrightarrow> kind y = KBinary operator"
  by (cases y) (auto simp: kind_def)

lemma conditionalParts_kind: "(\<exists>p. conditionalParts y = Some p) \<longleftrightarrow> kind y = KConditional"
  by (cases y) (auto simp: conditionalParts_def kind_def)

lemma numberValue_normalize: "numberValue (normalize x) = Some v \<Longrightarrow> numberValue x = Some v"
  using kind_normalize[of x] by (auto simp: numberValue_kind)

lemma numberValue_T_eq: "numberValue (normalize x) = numberValue x"
proof (cases "numberValue x")
  case None
  then show ?thesis using numberValue_normalize[of x] by (cases "numberValue (normalize x)") auto
next
  case (Some v)
  then have "x = AST_Number v" by (simp add: numberValue_kind kind_Number)
  then show ?thesis by (subst normalize_unfold) (simp add: constantsRule_def numberValue_def sequencesRule_def conditionalsRule_def voidReturnRule_def)
qed

lemma constantsRule_descend_normalize: "constantsRule (descend normalize x) = constantsRule x"
  by (cases x) (simp_all add: constantsRule_def numberValue_T_eq)

lemma constantsRule_replaceInBlock: "constantsRule (replaceInBlock x field cb) = constantsRule x"
  by (cases "(x, field, cb)" rule: replaceInBlock.cases) (simp_all add: constantsRule_def)

lemma constantsRule_rules: "constantsRule (voidReturnRule (sequencesRule x)) = constantsRule x"
  by (simp add: voidReturnRule_def sequencesRule_def removeSequences_def constantsRule_replaceInBlock)

lemma conditionalsRule_replaceInBlock: "conditionalsRule (replaceInBlock x field cb) = conditionalsRule x"
  by (cases "(x, field, cb)" rule: replaceInBlock.cases) (simp_all add: conditionalsRule_def)

lemma conditionalsRule_voidReturnRule: "conditionalsRule (voidReturnRule x) = conditionalsRule x"
  by (simp add: voidReturnRule_def conditionalsRule_replaceInBlock)


lemma conditionalsRule_SimpleStatement_None:
  "conditionalsRule (AST_SimpleStatement b) = None \<longleftrightarrow>
     kind b \<noteq> KBinary ''&&'' \<and> kind b \<noteq> KBinary ''||'' \<and> kind b \<noteq> KConditional"
  by (cases b) (auto simp: conditionalsRule_def conditionalParts_def kind_def)

lemma conditionalsRule_Return_None:
  "conditionalsRule (AST_Return v) = None \<longleftrightarrow> (\<forall>e. v = Some e \<longrightarrow> kind e \<noteq> KConditional)"
proof (cases v)
  case None
  then show ?thesis by (simp add: conditionalsRule_def)
next
  case (Some e)
  then show ?thesis by (cases e) (auto simp: conditionalsRule_def conditionalParts_def kind_def)
qed

lemma conditionalsRule_descend_normalize:
  assumes "conditionalsRule x = None"
  shows "conditionalsRule (descend normalize x) = None"
proof (cases x)
  case (AST_SimpleStatement b)
  then show ?thesis using assms kind_normalize[of b]
    by (auto simp: conditionalsRule_SimpleStatement_None)
next
  case (AST_Return v)
  show ?thesis
  proof (cases v)
    case None
    then show ?thesis using AST_Return by (simp add: conditionalsRule_def)
  next
    case (Some e)
    then show ?thesis using assms AST_Return kind_normalize[of e]
      by (auto simp: conditionalsRule_Return_None)
  qed
qed (simp_all add: conditionalsRule_def)

lemma replaceLoop_fixed: "\<forall>y\<in>set ys. replace cb y = None \<Longrightarrow> replaceLoop cb ys = ys"
  by (induction ys) (simp_all add: replaceLoop.simps)

lemma replaceLoop_output: "\<forall>y\<in>set (replaceLoop cb xs). replace cb y = None"
proof (induction cb xs rule: replaceLoop.induct)
  case (1 cb)
  then show ?case by (simp add: replaceLoop.simps)
next
  case (2 cb child rest)
  show ?case
  proof (cases "replace cb child")
    case None
    then show ?thesis using 2(1) by (simp add: replaceLoop.simps)
  next
    case (Some newNodes)
    then show ?thesis using 2(2)[OF Some] by (simp add: replaceLoop.simps)
  qed
qed

lemma replace_BlockStatement: "replace cb (AST_BlockStatement xs) = None"
  by (cases cb)
     (simp_all add: splitSequence_def splitVar_def splitAssign_def splitNodeTypes_def voidReturn_def)

lemma replace_replaceSingle: "replace cb (replaceSingle cb b) = None"
proof -
  have out: "\<forall>y\<in>set (replaceLoop cb [b]). replace cb y = None" by (rule replaceLoop_output)
  show ?thesis
  proof (cases "replaceLoop cb [b]")
    case Nil
    then show ?thesis by (simp add: replaceSingle_def replace_BlockStatement)
  next
    case (Cons x xs)
    then show ?thesis using out
      by (cases xs) (simp_all add: replaceSingle_def replace_BlockStatement)
  qed
qed

lemma replaceSingle_fixed: "replace cb b = None \<Longrightarrow> replaceSingle cb b = b"
  by (simp add: replaceSingle_def replaceLoop.simps)

lemma kind_Return: "kind y = KReturn \<longleftrightarrow> (\<exists>v. y = AST_Return v)"
  by (cases y) (simp_all add: kind_def)

lemma kind_UnaryPrefix: "kind y = KUnaryPrefix operator \<longleftrightarrow> (\<exists>e. y = AST_UnaryPrefix operator e)"
  by (cases y) (auto simp: kind_def)

lemma voidReturn_Some_iff:
  "voidReturn y \<noteq> None \<longleftrightarrow> (\<exists>e. y = AST_Return (Some e) \<and> kind e = KUnaryPrefix ''void'')"
proof (cases y)
  case (AST_Return v)
  show ?thesis
  proof (cases v)
    case None
    then show ?thesis using AST_Return by (simp add: voidReturn_def)
  next
    case (Some e)
    then show ?thesis using AST_Return by (cases e) (simp_all add: voidReturn_def kind_def)
  qed
qed (simp_all add: voidReturn_def)

lemma normalize_Return:
  "normalize (AST_Return v) = (case conditionalsRule (AST_Return v) of
                         Some newIf \<Rightarrow> normalize newIf
                       | None \<Rightarrow> AST_Return (map_option normalize v))"
  by (subst normalize_unfold)
     (simp add: constantsRule_def sequencesRule_def voidReturnRule_def split: option.splits)

lemma voidReturn_normalize:
  assumes "voidReturn y = None"
  shows "voidReturn (normalize y) = None"
proof (rule ccontr)
  assume "voidReturn (normalize y) \<noteq> None"
  then have "\<exists>e'. normalize y = AST_Return (Some e') \<and> kind e' = KUnaryPrefix ''void''"
    by (simp only: voidReturn_Some_iff)
  then obtain e' where ty: "normalize y = AST_Return (Some e')" and ke: "kind e' = KUnaryPrefix ''void''"
    by blast
  then have "kind (normalize y) = KReturn" by (simp add: kind_def)
  then have "kind y = KReturn" using kind_normalize[of y] by auto
  then obtain v where y: "y = AST_Return v" by (auto simp: kind_Return)
  show False
  proof (cases "conditionalsRule (AST_Return v)")
    case (Some i)
    then obtain c b a where "i = AST_If c b a" using conditionalsRule_If by blast
    then show False using ty Some by (simp add: y normalize_Return transform_If)
  next
    case None
    then have "AST_Return (map_option normalize v) = AST_Return (Some e')" using ty by (simp add: y normalize_Return)
    then obtain e where v: "v = Some e" and e: "normalize e = e'" by auto
    then have "kind e = KUnaryPrefix ''void''" using ke kind_normalize[of e] by auto
    then have "\<exists>e0. y = AST_Return (Some e0) \<and> kind e0 = KUnaryPrefix ''void''"
      by (simp add: y v)
    then have "voidReturn y \<noteq> None" by (simp only: voidReturn_Some_iff)
    then show False using assms by simp
  qed
qed

lemma voidLoop_map_normalize: "replaceLoop VoidReturn (map normalize (replaceLoop VoidReturn xs)) = map normalize (replaceLoop VoidReturn xs)"
proof (rule replaceLoop_fixed, rule ballI)
  fix y assume "y \<in> set (map normalize (replaceLoop VoidReturn xs))"
  then obtain z where z: "z \<in> set (replaceLoop VoidReturn xs)" and y: "y = normalize z" by auto
  then have "voidReturn z = None" using replaceLoop_output[of VoidReturn xs] by auto
  then show "replace VoidReturn y = None" by (simp add: y voidReturn_normalize)
qed

lemma voidSingle_normalize: "replaceSingle VoidReturn (normalize (replaceSingle VoidReturn b)) = normalize (replaceSingle VoidReturn b)"
proof (rule replaceSingle_fixed)
  have "voidReturn (replaceSingle VoidReturn b) = None"
    using replace_replaceSingle[of VoidReturn b] by simp
  then show "replace VoidReturn (normalize (replaceSingle VoidReturn b)) = None"
    by (simp add: voidReturn_normalize)
qed

lemma voidReturnRule_descend_normalize:
  "voidReturnRule (descend normalize (voidReturnRule x)) = descend normalize (voidReturnRule x)"
  by (cases x) (simp_all add: voidReturnRule_def voidLoop_map_normalize voidSingle_normalize)


lemma constantsRule_fixed: "constantsRule x = Some a \<Longrightarrow> normalize a = a"
proof -
  assume "constantsRule x = Some a"
  then have "a = AST_NaN \<or> a = AST_Infinity \<or> a = AST_True \<or> a = AST_False"
    by (auto simp: constantsRule_def split: option.splits if_splits node.splits)
  then show ?thesis
    by (subst normalize_unfold)
       (auto simp: constantsRule_def sequencesRule_def conditionalsRule_def voidReturnRule_def)
qed

lemma settled_normalize_fixed:
  "settled (transform defaultOptions node) \<Longrightarrow>
   transform defaultOptions (transform defaultOptions node) = transform defaultOptions node"
proof (induction node rule: measure_induct_rule[where f = weight])
  case (less n)
  show ?case
  proof (cases "constantsRule n")
    case (Some a)
    then have "normalize n = a" by (subst normalize_unfold) simp
    then show ?thesis using constantsRule_fixed[OF Some] by simp
  next
    case None
    show ?thesis
    proof (cases "conditionalsRule (sequencesRule n)")
      case (Some i)
      then have tn: "normalize n = normalize i" using None by (subst normalize_unfold) simp
      have "weight i < weight (sequencesRule n)" using Some by (rule conditionalsRule_weight)
      then have "weight i < weight n" using sequencesRule_weight[of n] by simp
      moreover have "settled (normalize i)" using less.prems tn by simp
      ultimately have "normalize (normalize i) = normalize i" by (rule less.IH)
      then show ?thesis by (simp add: tn)
    next
      case cn: None
      let ?n2 = "voidReturnRule (sequencesRule n)"
      let ?m = "descend normalize ?n2"
      have tn: "normalize n = ?m" using None cn by (subst normalize_unfold) simp
      have sm: "settled ?m" using less.prems tn by simp
      then have seq: "sequencesRule ?m = ?m" and ch: "\<forall>c\<in>set (children ?m). settled c"
        by (subst (asm) settled.simps, simp)+
      have c1: "constantsRule ?m = None"
        using None by (simp add: constantsRule_descend_normalize constantsRule_rules)
      have c2: "conditionalsRule (sequencesRule ?m) = None"
        unfolding seq using cn
        by (intro conditionalsRule_descend_normalize) (simp add: conditionalsRule_voidReturnRule)
      have c3: "voidReturnRule (sequencesRule ?m) = ?m"
        unfolding seq by (rule voidReturnRule_descend_normalize)
      have "normalize ?m = descend normalize ?m"
        by (subst normalize_unfold) (simp add: c1 c2 c3)
      also have "\<dots> = descend (\<lambda>c. normalize (normalize c)) ?n2" by (rule descend_descend)
      also have "\<dots> = descend normalize ?n2"
      proof (rule descend_cong[OF refl])
        fix c assume c: "c \<in> set (children ?n2)"
        then have "weight c < weight ?n2" by (rule weight_children)
        also have "\<dots> \<le> weight (sequencesRule n)" by (rule voidReturnRule_weight)
        also have "\<dots> \<le> weight n" by (rule sequencesRule_weight)
        finally have w: "weight c < weight n" .
        have "normalize c \<in> set (children ?m)" using c by (simp add: children_descend)
        then have "settled (normalize c)" using ch by blast
        with w show "normalize (normalize c) = normalize c" by (rule less.IH)
      qed
      finally show ?thesis by (simp add: tn)
    qed
  qed
qed

lemma seqFree_child: "seqFree n \<Longrightarrow> c \<in> set (children n) \<Longrightarrow> seqFree c"
  by (subst (asm) seqFree.simps) simp

lemma seqFree_not_Sequence: "seqFree n \<Longrightarrow> sequenceParts n = None"
  by (subst (asm) seqFree.simps) simp

lemma seqFree_intro: "sequenceParts n = None \<Longrightarrow> (\<And>c. c \<in> set (children n) \<Longrightarrow> seqFree c) \<Longrightarrow> seqFree n"
  by (subst seqFree.simps) simp

lemma valueSequence_child:
  "valueSequence v = Some p \<Longrightarrow> \<exists>e. v = Some e \<and> sequenceParts e \<noteq> None"
  by (cases v) (auto simp: valueSequence_def)

lemma splitDefinitions_Some:
  "splitDefinitions ds = Some r \<Longrightarrow> \<exists>name e. AST_VarDef name (Some e) \<in> set ds \<and> sequenceParts e \<noteq> None"
proof (induction ds arbitrary: r)
  case Nil
  then show ?case by simp
next
  case (Cons d ds)
  show ?case
  proof (cases "case d of AST_VarDef name v \<Rightarrow> map_option (Pair name) (valueSequence v) | _ \<Rightarrow> None")
    case None
    with Cons.prems obtain r' where "splitDefinitions ds = Some r'"
      by (auto split: option.splits)
    from Cons.IH[OF this] obtain name e where
      "AST_VarDef name (Some e) \<in> set ds" "sequenceParts e \<noteq> None" by blast
    then have "AST_VarDef name (Some e) \<in> set (d # ds) \<and> sequenceParts e \<noteq> None" by simp
    then show ?thesis by blast
  next
    case (Some a)
    then obtain name v where d: "d = AST_VarDef name v" and "valueSequence v \<noteq> None"
      by (cases d) auto
    then obtain e where "v = Some e" "sequenceParts e \<noteq> None"
      using valueSequence_child by fastforce
    then have "AST_VarDef name (Some e) \<in> set (d # ds) \<and> sequenceParts e \<noteq> None"
      using d by simp
    then show ?thesis by blast
  qed
qed

lemma seqFree_splitSequence:
  assumes "seqFree child"
  shows "splitSequence child = None"
proof (rule ccontr)
  assume "splitSequence child \<noteq> None"
  then consider (var) "splitVar child \<noteq> None" | (assign) "splitAssign child \<noteq> None"
    | (types) "splitNodeTypes child \<noteq> None"
    by (auto simp: splitSequence_def split: option.splits)
  then show False
  proof cases
    case var
    then obtain ds r where c: "child = AST_Var ds" and "splitDefinitions ds = Some r"
      by (cases child) (auto simp: splitVar_def split: option.splits)
    then obtain name e where d: "AST_VarDef name (Some e) \<in> set ds" and e: "sequenceParts e \<noteq> None"
      using splitDefinitions_Some by blast
    have "seqFree (AST_VarDef name (Some e))" using assms d by (auto simp: c intro: seqFree_child)
    then have "seqFree e" by (rule seqFree_child) (simp add: opt_list_def)
    then show False using e seqFree_not_Sequence[of e] by simp
  next
    case assign
    then obtain operator left right where c: "child = AST_SimpleStatement (AST_Assign operator left right)"
      and r: "sequenceParts right \<noteq> None"
      by (auto simp: splitAssign_def split: node.splits option.splits)
    have "seqFree (AST_Assign operator left right)" using assms by (auto simp: c intro: seqFree_child)
    then have "seqFree right" by (rule seqFree_child) simp
    then show False using r seqFree_not_Sequence[of right] by simp
  next
    case types
    then obtain e where "e \<in> set (children child)" and "sequenceParts e \<noteq> None"
      by (cases child)
         (auto simp: splitNodeTypes_def opt_list_def split: option.splits dest!: valueSequence_child)
    then show False using seqFree_child[OF assms, of e] seqFree_not_Sequence[of e] by simp
  qed
qed

lemma seqFree_sequencesRule: 
  assumes "seqFree n"
  shows "sequencesRule n = n"
proof -
  have l: "replaceLoop SplitSequence xs = xs" if "\<forall>x\<in>set xs. seqFree x" for xs
    using that by (intro replaceLoop_fixed) (simp add: seqFree_splitSequence)
  have s: "replaceSingle SplitSequence b = b" if "seqFree b" for b
    using that by (intro replaceSingle_fixed) (simp add: seqFree_splitSequence)
  have c: "\<forall>x\<in>set (children n). seqFree x" using assms seqFree_child by blast
  have o: "map_option (replaceSingle SplitSequence) a = a" if "\<forall>x. Some x = a \<longrightarrow> seqFree x" for a
    using that by (cases a) (simp_all add: s)
  show ?thesis using c
    by (cases n) (auto simp: sequencesRule_def removeSequences_def l s o opt_list_def split: option.splits)
qed

lemma seqFree_settled: "seqFree n \<Longrightarrow> settled n"
proof (induction n rule: measure_induct_rule[where f = weight])
  case (less n)
  have "\<forall>c\<in>set (children n). settled c"
    using less.IH less.prems seqFree_child weight_children by blast
  then show ?case using seqFree_sequencesRule[OF less.prems] by (subst settled.simps) simp
qed


lemma seqFree_nodes:
  "seqFree (AST_If c b a) \<longleftrightarrow> seqFree c \<and> seqFree b \<and> (\<forall>x. a = Some x \<longrightarrow> seqFree x)"
  "seqFree (AST_SimpleStatement e) \<longleftrightarrow> seqFree e"
  "seqFree (AST_UnaryPrefix operator e) \<longleftrightarrow> seqFree e"
  "seqFree (AST_Return v) \<longleftrightarrow> (\<forall>x. v = Some x \<longrightarrow> seqFree x)"
  "seqFree (AST_Binary operator l r) \<longleftrightarrow> seqFree l \<and> seqFree r"
  "seqFree (AST_Assign operator l r) \<longleftrightarrow> seqFree l \<and> seqFree r"
  "seqFree (AST_Conditional c l r) \<longleftrightarrow> seqFree c \<and> seqFree l \<and> seqFree r"
  "seqFree (AST_BlockStatement xs) \<longleftrightarrow> (\<forall>x\<in>set xs. seqFree x)"
  "seqFree (AST_Toplevel xs) \<longleftrightarrow> (\<forall>x\<in>set xs. seqFree x)"
  "seqFree (AST_Call f args) \<longleftrightarrow> seqFree f \<and> (\<forall>x\<in>set args. seqFree x)"
  "seqFree (AST_SymbolRef name d)"
  "seqFree AST_NaN" "seqFree AST_Infinity" "seqFree AST_True" "seqFree AST_False"
  by (auto simp: seqFree.simps[of "AST_If c b a"] seqFree.simps[of "AST_SimpleStatement e"]
      seqFree.simps[of "AST_UnaryPrefix operator e"] seqFree.simps[of "AST_Return v"]
      seqFree.simps[of "AST_Binary operator l r"] seqFree.simps[of "AST_Assign operator l r"]
      seqFree.simps[of "AST_Conditional c l r"] seqFree.simps[of "AST_BlockStatement xs"]
      seqFree.simps[of AST_NaN] seqFree.simps[of AST_Infinity] seqFree.simps[of AST_True]
      seqFree.simps[of "AST_Toplevel xs"] seqFree.simps[of "AST_Call f args"]
      seqFree.simps[of "AST_SymbolRef name d"]
      seqFree.simps[of AST_False] sequenceParts_def opt_list_def)

lemma seqFree_asStatement: "seqFree e \<Longrightarrow> seqFree (asStatement e)"
  by (simp add: asStatement_def seqFree_nodes)

lemma conditionalsRule_seqFree:
  assumes "conditionalsRule x = Some i" "seqFree x"
  shows "seqFree i"
proof (cases x)
  case (AST_SimpleStatement body)
  then have b: "seqFree body" using assms(2) by (simp add: seqFree_nodes)
  show ?thesis
  proof (cases body)
    case (AST_Binary operator l r)
    then show ?thesis using assms(1) b AST_SimpleStatement
      by (auto simp: conditionalsRule_def conditionalParts_def seqFree_nodes seqFree_asStatement split: if_splits)
  next
    case (AST_Assign operator l r)
    then show ?thesis using assms(1) b AST_SimpleStatement
      by (auto simp: conditionalsRule_def conditionalParts_def seqFree_nodes seqFree_asStatement split: if_splits)
  next
    case (AST_Conditional c l r)
    then show ?thesis using assms(1) b AST_SimpleStatement
      by (auto simp: conditionalsRule_def conditionalParts_def seqFree_nodes seqFree_asStatement)
  qed (use assms(1) AST_SimpleStatement in \<open>simp_all add: conditionalsRule_def conditionalParts_def\<close>)
next
  case (AST_Return v)
  show ?thesis
  proof (cases v)
    case None
    then show ?thesis using assms(1) AST_Return by (simp add: conditionalsRule_def)
  next
    case (Some e)
    then have e: "seqFree e" using assms(2) AST_Return by (simp add: seqFree_nodes)
    then show ?thesis using assms(1) AST_Return Some
      by (cases e) (auto simp: conditionalsRule_def conditionalParts_def seqFree_nodes)
  qed
qed (use assms(1) in \<open>simp_all add: conditionalsRule_def\<close>)

lemma voidReturn_seqFree:
  "voidReturn child = Some newNodes \<Longrightarrow> seqFree child \<Longrightarrow> \<forall>x\<in>set newNodes. seqFree x"
  by (auto simp: voidReturn_def seqFree_nodes split: node.splits option.splits if_splits)

lemma voidLoop_seqFree:
  "\<forall>x\<in>set xs. seqFree x \<Longrightarrow> \<forall>y\<in>set (replaceLoop VoidReturn xs). seqFree y"
proof (induction VoidReturn xs rule: replaceLoop.induct)
  case 1
  then show ?case by (simp add: replaceLoop.simps)
next
  case (2 child rest)
  show ?case
  proof (cases "voidReturn child")
    case None
    then show ?thesis using 2(1) 2(3) by (simp add: replaceLoop.simps)
  next
    case (Some newNodes)
    then have "\<forall>x\<in>set (newNodes @ rest). seqFree x"
      using voidReturn_seqFree[OF Some] 2(3) by auto
    then show ?thesis using 2(2) Some by (simp add: replaceLoop.simps)
  qed
qed

lemma voidSingle_seqFree: "seqFree b \<Longrightarrow> seqFree (replaceSingle VoidReturn b)"
proof -
  assume "seqFree b"
  then have a: "\<forall>y\<in>set (replaceLoop VoidReturn [b]). seqFree y"
    by (intro voidLoop_seqFree) simp
  show ?thesis
  proof (cases "replaceLoop VoidReturn [b]")
    case Nil
    then show ?thesis by (simp add: replaceSingle_def seqFree_nodes)
  next
    case (Cons x xs)
    then show ?thesis using a by (cases xs) (simp_all add: replaceSingle_def seqFree_nodes)
  qed
qed

lemma sequenceParts_replaceInBlock: "sequenceParts (replaceInBlock x field cb) = sequenceParts x"
  by (cases "(x, field, cb)" rule: replaceInBlock.cases) (simp_all add: sequenceParts_def)

lemma sequenceParts_descend: "sequenceParts (descend f x) = None \<longleftrightarrow> sequenceParts x = None"
  by (cases x) (simp_all add: sequenceParts_def)

lemma voidReturnRule_seqFree:
  assumes "seqFree n"
  shows "seqFree (voidReturnRule n)"
proof -
  have c: "\<forall>x\<in>set (children n). seqFree x" using assms seqFree_child by blast
  have s: "sequenceParts n = None" using assms by (rule seqFree_not_Sequence)
  show ?thesis
  proof (rule seqFree_intro)
    show "sequenceParts (voidReturnRule n) = None"
      using s by (simp add: voidReturnRule_def sequenceParts_replaceInBlock)
  next
    fix x assume "x \<in> set (children (voidReturnRule n))"
    then show "seqFree x" using c
      by (cases n)
         (auto simp: voidReturnRule_def opt_list_def voidSingle_seqFree
            dest: voidLoop_seqFree[rule_format, rotated] split: option.splits)
  qed
qed

lemma seqFree_normalize: "seqFree n \<Longrightarrow> seqFree (normalize n)"
proof (induction n rule: measure_induct_rule[where f = weight])
  case (less n)
  have sr: "sequencesRule n = n" using less.prems by (rule seqFree_sequencesRule)
  show ?case
  proof (cases "constantsRule n")
    case (Some a)
    then have "a = AST_NaN \<or> a = AST_Infinity \<or> a = AST_True \<or> a = AST_False"
      by (auto simp: constantsRule_def split: option.splits if_splits node.splits)
    moreover have "normalize n = a" using Some by (subst normalize_unfold) simp
    ultimately show ?thesis by (auto simp: seqFree_nodes)
  next
    case None
    show ?thesis
    proof (cases "conditionalsRule n")
      case (Some i)
      then have tn: "normalize n = normalize i" using None sr by (subst normalize_unfold) simp
      have "weight i < weight n" using Some by (rule conditionalsRule_weight)
      moreover have "seqFree i" using Some less.prems by (rule conditionalsRule_seqFree)
      ultimately show ?thesis using less.IH tn by simp
    next
      case cn: None
      let ?n2 = "voidReturnRule n"
      have tn: "normalize n = descend normalize ?n2" using None cn sr by (subst normalize_unfold) simp
      have n2: "seqFree ?n2" using less.prems by (rule voidReturnRule_seqFree)
      have "seqFree (descend normalize ?n2)"
      proof (rule seqFree_intro)
        show "sequenceParts (descend normalize ?n2) = None"
          using seqFree_not_Sequence[OF n2] by (simp add: sequenceParts_descend)
      next
        fix x assume "x \<in> set (children (descend normalize ?n2))"
        then obtain c where c: "c \<in> set (children ?n2)" and x: "x = normalize c"
          by (auto simp: children_descend)
        have "weight c < weight ?n2" using c by (rule weight_children)
        then have "weight c < weight n" using voidReturnRule_weight[of n] by simp
        moreover have "seqFree c" using n2 c by (rule seqFree_child)
        ultimately show "seqFree x" using less.IH x by simp
      qed
      then show ?thesis by (simp add: tn)
    qed
  qed
qed




section \<open>Properties of the Module Assembler\<close>

lemmas assembler_eval = extractModules_def isNotBuiltinModule_def isNotPublishedDependency_def
  moduleProperty_def assembleModule.simps renameArguments_def argNames_def nth_opt_def
  updateRequires.simps visitRequire_def isRequire_def mangled_name_def stringValue_def
  mappingLookup_def toplevelBody_def functionBody_def truthy_def path_basename_def
  slice_def decimal.simps opt_list_def

lemma fib_names:
  "extractModuleNames fibBundle [''2''] =
     Some \<lparr>moduleNames = [''2'' \<mapsto> ''browser'', ''1'' \<mapsto> ''fib''], warnings = []\<rparr>"
  by (simp add: fibBundle_def resolver_eval)

text \<open>
  Claim C3 says that the argument of a call of \<^verbatim>\<open>require\<close> is replaced by a specifier made
  from the name of the target. On the bundle of the tests the mapping of the entry module
  is the array \<^verbatim>\<open>[['fib', 'fib']]\<close>, the lookup \<^verbatim>\<open>mapping['fib']\<close> is undefined, and
  \<^verbatim>\<open>require('./fib')\<close> is left as it is in the assembled tree.
\<close>

theorem require_argument_left_unchanged:
  "extractModules (\<lambda>name. False) (\<lambda>name. None) fibBundle [''2'' \<mapsto> ''browser'', ''1'' \<mapsto> ''fib'']
     (\<lambda>d. None) []
   = Inr \<lparr>modules = [''fib'' \<mapsto> AST_Toplevel fibBody, ''browser'' \<mapsto> AST_Toplevel mainBody],
          thedefs = (\<lambda>d. None), dependencies = []\<rparr>
   \<and> moduleProperty [''2'' \<mapsto> ''browser'', ''1'' \<mapsto> ''fib''] (fibBundle ! 1)
     = (''browser'', moduleFunction (fibBundle ! 1), [(''fib'', Some ''fib'')])
   \<and> mappingLookup (\<lambda>name. None) [(''fib'', Some ''fib'')] (path_basename ''./fib'' ''.js'') = None"
  by (simp add: fibBundle_def mainBody_def fibBody_def assembler_eval)

lemma foldE_append:
  "foldE f (xs @ ys) s = (case foldE f xs s of Inl e \<Rightarrow> Inl e | Inr s' \<Rightarrow> foldE f ys s')"
  by (induction xs arbitrary: s) (auto split: sum.splits)

lemma assembleModule_other:
  "assembleModule inherited x st = Inr st' \<Longrightarrow> fst x \<noteq> k \<Longrightarrow> modules st' k = modules st k"
  by (cases x) (auto simp: assembleModule.simps split: sum.splits)

lemma assembleModule_tree:
  "assembleModule inherited x st = Inr st' \<Longrightarrow> \<exists>body. modules st' (fst x) = Some (AST_Toplevel body)"
  by (cases x) (auto simp: assembleModule.simps split: sum.splits)

lemma foldE_assemble_other:
  "foldE (assembleModule inherited) xs st = Inr st' \<Longrightarrow> \<forall>x\<in>set xs. fst x \<noteq> k \<Longrightarrow>
   modules st' k = modules st k"
proof (induction xs arbitrary: st)
  case Nil
  then show ?case by simp
next
  case (Cons x xs)
  from Cons.prems(1) obtain st1 where a: "assembleModule inherited x st = Inr st1"
    and f: "foldE (assembleModule inherited) xs st1 = Inr st'"
    by (auto split: sum.splits)
  have "modules st' k = modules st1 k" using Cons.IH[OF f] Cons.prems(2) by simp
  also have "\<dots> = modules st k" using assembleModule_other[OF a] Cons.prems(2) by simp
  finally show ?case .
qed

lemma foldE_assemble_tree:
  "foldE (assembleModule inherited) xs st = Inr st' \<Longrightarrow> \<exists>body. modules st k = Some (AST_Toplevel body) \<Longrightarrow>
   \<exists>body. modules st' k = Some (AST_Toplevel body)"
proof (induction xs arbitrary: st)
  case Nil
  then show ?case by simp
next
  case (Cons x xs)
  from Cons.prems(1) obtain st1 where a: "assembleModule inherited x st = Inr st1"
    and f: "foldE (assembleModule inherited) xs st1 = Inr st'"
    by (auto split: sum.splits)
  have "\<exists>body. modules st1 k = Some (AST_Toplevel body)"
  proof (cases "fst x = k")
    case True
    then show ?thesis using assembleModule_tree[OF a] by simp
  next
    case False
    then show ?thesis using assembleModule_other[OF a False] Cons.prems(2) by simp
  qed
  from Cons.IH[OF f this] show ?case .
qed

lemma filterNotBuiltin_filter:
  "filterNotBuiltin isBuiltinModule names xs = Inr ys \<Longrightarrow>
   ys = filter (\<lambda>q. isNotBuiltinModule isBuiltinModule names q = Inr True) xs
   \<and> (\<forall>q\<in>set xs. names (key q) \<noteq> None)"
proof (induction xs arbitrary: ys)
  case Nil
  then show ?case by simp
next
  case (Cons x xs)
  from Cons.prems obtain keep rest where k: "isNotBuiltinModule isBuiltinModule names x = Inr keep"
    and r: "filterNotBuiltin isBuiltinModule names xs = Inr rest"
    and ys: "ys = (if keep then x # rest else rest)"
    by (auto split: sum.splits)
  have "names (key x) \<noteq> None" using k by (auto simp: isNotBuiltinModule_def split: option.splits)
  then show ?case using Cons.IH[OF r] k ys by auto
qed

lemma isNotPublishedDependency_deps:
  "isNotPublishedDependency names q d = Inr (b, d') \<Longrightarrow>
   \<exists>d2. isNotPublishedDependency names q [] = Inr (b, d2)"
  by (auto simp: isNotPublishedDependency_def Let_def split: option.splits if_splits)

lemma isNotPublishedDependency_keep:
  "isNotPublishedDependency names q [] = Inr (b, d2) \<Longrightarrow> isNotPublishedDependency names q d = Inr (c, d') \<Longrightarrow> c = b"
  by (auto simp: isNotPublishedDependency_def Let_def split: option.splits if_splits)

lemma filterNotPublished_filter:
  "filterNotPublished names xs d = Inr (ys, d') \<Longrightarrow>
   ys = filter (\<lambda>q. \<exists>d2. isNotPublishedDependency names q [] = Inr (True, d2)) xs"
proof (induction xs arbitrary: ys d d')
  case Nil
  then show ?case by simp
next
  case (Cons x xs)
  from Cons.prems obtain keep d1 rest where k: "isNotPublishedDependency names x d = Inr (keep, d1)"
    and r: "filterNotPublished names xs d1 = Inr (rest, d')"
    and ys: "ys = (if keep then x # rest else rest)"
    by (auto split: sum.splits prod.splits)
  from isNotPublishedDependency_deps[OF k] obtain d2 where
    k0: "isNotPublishedDependency names x [] = Inr (keep, d2)" by blast
  then have "(\<exists>d2. isNotPublishedDependency names x [] = Inr (True, d2)) \<longleftrightarrow> keep" by auto
  then show ?case using Cons.IH[OF r] ys by simp
qed

lemma seedNames_browser: "\<forall>e\<in>set main. seedNames main e = Some ''browser''"
  by (simp add: seedNames_apply)

text \<open>
  Claim C4. Every entry id is seeded with the name \<^verbatim>\<open>browser\<close>, and whenever
  \<^verbatim>\<open>extractModules\<close> returns, its result has a tree under that name; the tree is empty when
  no property of the module map has that name.
\<close>

theorem entry_tree_always_present:
  assumes ret: "extractModules isBuiltinModule inherited moduleObject names ds deps = Inr st"
  shows "(\<forall>e\<in>set main. seedNames main e = Some ''browser'')
       \<and> (\<exists>body. modules st ''browser'' = Some (AST_Toplevel body))
       \<and> ((\<forall>p\<in>set moduleObject. names (key p) \<noteq> Some ''browser'') \<longrightarrow>
            modules st ''browser'' = Some (AST_Toplevel []))"
proof -
  from ret obtain notBuiltin moduleProperties deps' where
    nb: "filterNotBuiltin isBuiltinModule names moduleObject = Inr notBuiltin"
    and np: "filterNotPublished names notBuiltin deps = Inr (moduleProperties, deps')"
    and fo: "foldE (assembleModule inherited) (map (moduleProperty names) moduleProperties)
                 \<lparr>modules = [''browser'' \<mapsto> AST_Toplevel []], thedefs = ds, dependencies = deps'\<rparr> = Inr st"
    by (auto simp: extractModules_def split: sum.splits prod.splits)
  let ?st0 = "\<lparr>modules = [''browser'' \<mapsto> AST_Toplevel []], thedefs = ds, dependencies = deps'\<rparr>"
  have tree: "\<exists>body. modules st ''browser'' = Some (AST_Toplevel body)"
    by (rule foldE_assemble_tree[OF fo]) simp
  have sub: "set moduleProperties \<subseteq> set moduleObject"
    using filterNotBuiltin_filter[OF nb] filterNotPublished_filter[OF np] by auto
  have "modules st ''browser'' = Some (AST_Toplevel [])"
    if none: "\<forall>p\<in>set moduleObject. names (key p) \<noteq> Some ''browser''"
  proof -
    have "\<forall>x\<in>set (map (moduleProperty names) moduleProperties). fst x \<noteq> ''browser''"
    proof
      fix x assume "x \<in> set (map (moduleProperty names) moduleProperties)"
      then obtain q where q: "q \<in> set moduleProperties" and x: "x = moduleProperty names q" by auto
      then have qm: "q \<in> set moduleObject" using sub by auto
      then have "names (key q) \<noteq> None" using filterNotBuiltin_filter[OF nb] by simp
      then obtain m where m: "names (key q) = Some m" by auto
      then have "m \<noteq> ''browser''" using none qm by auto
      then show "fst x \<noteq> ''browser''" by (simp add: x moduleProperty_def m)
    qed
    from foldE_assemble_other[OF fo this] show ?thesis by simp
  qed
  then show ?thesis using tree seedNames_browser by blast
qed

theorem entry_tree_always_present_witness:
  "seedNames [''9''] ''9'' = Some ''browser''
   \<and> (\<exists>st. extractModules (\<lambda>name. False) (\<lambda>name. None) fibBundle [''1'' \<mapsto> ''lib/fib'', ''2'' \<mapsto> ''lib/main'']
             (\<lambda>d. None) [] = Inr st
           \<and> modules st ''browser'' = Some (AST_Toplevel []))"
proof -
  have e: "extractModules (\<lambda>name. False) (\<lambda>name. None) fibBundle [''1'' \<mapsto> ''lib/fib'', ''2'' \<mapsto> ''lib/main'']
             (\<lambda>d. None) []
     = Inr \<lparr>modules = [''browser'' \<mapsto> AST_Toplevel [], ''lib/fib'' \<mapsto> AST_Toplevel fibBody,
                       ''lib/main'' \<mapsto> AST_Toplevel mainBody],
            thedefs = (\<lambda>d. None), dependencies = []\<rparr>"
    by (simp add: fibBundle_def mainBody_def fibBody_def assembler_eval)
  have "\<forall>p\<in>set fibBundle. [''1'' \<mapsto> ''lib/fib'', ''2'' \<mapsto> ''lib/main''] (key p) \<noteq> Some ''browser''"
    by (simp add: fibBundle_def)
  with entry_tree_always_present[OF e, of "[''9'']"] show ?thesis
    by (simp add: e)
qed

lemma renameArguments_Function:
  "\<exists>argnames' ds'. renameArguments (AST_Function argnames body) ds = Inr (AST_Function argnames' body, ds')"
  by (simp add: renameArguments_def split: prod.splits)

lemma updateRequires_Function:
  "updateRequires inherited ds mapping (AST_Function argnames body) =
     AST_Function argnames (map (updateRequires inherited ds mapping) body)"
  by (subst updateRequires.simps) (simp add: visitRequire_def)

lemma assembleModule_verbatim:
  assumes a: "assembleModule inherited (n, AST_Function argnames body, mapping) st = Inr st'"
    and u: "\<And>ds m. map (updateRequires inherited ds m) body = body"
  shows "modules st' n = Some (AST_Toplevel (toplevelBody (modules st n) @ body))"
proof -
  obtain argnames' ds' where r: "renameArguments (AST_Function argnames body) (thedefs st) = Inr (AST_Function argnames' body, ds')"
    using renameArguments_Function by blast
  show ?thesis using a
    by (auto simp: assembleModule.simps r updateRequires_Function u functionBody_def)
qed

lemma renameArgumentsFrom_canonical:
  "\<forall>j<length args. Some (fst (args ! j)) = nth_opt argNames (i + j) \<Longrightarrow>
   renameArgumentsFrom i args ds = (args, ds)"
proof (induction args arbitrary: i)
  case Nil
  then show ?case by simp
next
  case (Cons a args)
  obtain name d where a: "a = (name, d)" by (cases a)
  have "Some name = nth_opt argNames i" using Cons.prems a by force
  then have r: "renameArgument i a ds = (a, ds)" by (simp add: a)
  have "\<forall>j<length args. Some (fst (args ! j)) = nth_opt argNames (Suc i + j)"
    using Cons.prems by force
  from Cons.IH[OF this] show ?case by (simp add: r)
qed

lemma take_argNames_nth:
  assumes "length args \<le> length argNames" "map fst args = take (length args) argNames"
  shows "\<forall>j<length args. Some (fst (args ! j)) = nth_opt argNames (0 + j)"
proof (intro allI impI)
  fix j assume j: "j < length args"
  then have "fst (args ! j) = map fst args ! j" by simp
  also have "\<dots> = argNames ! j" using assms j by simp
  finally show "Some (fst (args ! j)) = nth_opt argNames (0 + j)"
    using assms(1) j by (simp add: nth_opt_def)
qed

lemma renameArguments_canonical:
  "canonicalArguments func \<Longrightarrow> renameArguments func ds = Inr (func, ds)"
  by (cases func)
     (auto simp: canonicalArguments_def renameArguments_def
        renameArgumentsFrom_canonical[OF take_argNames_nth])

lemma assembleModule_store:
  "assembleModule inherited x st = Inr st' \<Longrightarrow> canonicalArguments (fst (snd x)) \<Longrightarrow> thedefs st' = thedefs st"
  by (cases x) (auto simp: assembleModule.simps renameArguments_canonical)

lemma foldE_assemble_store:
  "foldE (assembleModule inherited) xs st = Inr st' \<Longrightarrow> \<forall>x\<in>set xs. canonicalArguments (fst (snd x)) \<Longrightarrow>
   thedefs st' = thedefs st"
proof (induction xs arbitrary: st)
  case Nil
  then show ?case by simp
next
  case (Cons x xs)
  from Cons.prems(1) obtain st1 where a: "assembleModule inherited x st = Inr st1"
    and f: "foldE (assembleModule inherited) xs st1 = Inr st'"
    by (auto split: sum.splits)
  have "thedefs st' = thedefs st1" using Cons.IH[OF f] Cons.prems(2) by simp
  also have "\<dots> = thedefs st" using assembleModule_store[OF a] Cons.prems(2) by simp
  finally show ?case .
qed


lemma fib_not_rewritten: "map (updateRequires inherited ds m) fibBody = fibBody"
  by (simp add: fibBody_def updateRequires.simps visitRequire_def stringValue_def)



end
